theory Spec2Isabelle
  imports Main "HOL-Library.Word"
begin

section \<open>RingStream (RingStream.cpp)\<close>

text \<open>
  A byte is a \<open>uint8_t\<close>.  The private members \<open>_len\<close>, \<open>_buffer\<close>, \<open>_pos_write\<close>,
  \<open>_pos_read\<close> and \<open>_overflow\<close> of the class become the fields of a record; the leading
  underscore, which no Isabelle name can start with, is written \<open>rs\<close>.  The cursors are
  natural numbers: RingStream.h, which declares their C type, is not among the sources,
  and in every state that the theorems speak of they stay below \<open>_len\<close>, which the
  constructor receives as a \<open>uint16_t\<close>.
\<close>

type_synonym byte = "8 word"

record ring_stream =
  rs_len :: nat
  rs_buffer :: "byte list"
  rs_pos_write :: nat
  rs_pos_read :: nat
  rs_overflow :: bool

text \<open>
  The constructor.  \<open>new byte[len]\<close> does not initialise the array, so its first content
  \<open>mem\<close> is a parameter (\<open>length mem = len\<close>); only \<open>_buffer[0]\<close> is set.
\<close>

definition RingStream :: "nat \<Rightarrow> byte list \<Rightarrow> ring_stream" where
  "RingStream n mem =
     \<lparr> rs_len = n, rs_buffer = mem[0 := 0], rs_pos_write = 0, rs_pos_read = 0,
       rs_overflow = False \<rparr>"

text \<open>\<open>size_t RingStream::write(uint8_t byte)\<close>: the returned count and the new state.
  The \<open>DIAG\<close> line only prints.\<close>

definition RingStream_write :: "byte \<Rightarrow> ring_stream \<Rightarrow> nat \<times> ring_stream" where
  "RingStream_write b s =
     (if rs_overflow s then (0, s)
      else
        let s1 = s\<lparr> rs_buffer := (rs_buffer s)[rs_pos_write s := b] \<rparr>;
            s2 = s1\<lparr> rs_pos_write := rs_pos_write s1 + 1 \<rparr>;
            s3 = (if rs_pos_write s2 \<ge> rs_len s2 then s2\<lparr> rs_pos_write := 0 \<rparr> else s2)
        in if rs_pos_write s3 = rs_pos_read s3
           then (0, s3\<lparr> rs_overflow := True \<rparr>)
           else (1, s3))"

text \<open>\<open>int RingStream::read()\<close>: \<open>-1\<close> or the byte as an \<open>int\<close>, and the new state.\<close>

definition RingStream_read :: "ring_stream \<Rightarrow> int \<times> ring_stream" where
  "RingStream_read s =
     (if rs_pos_read s = rs_pos_write s then (- 1, s)
      else
        let b = rs_buffer s ! rs_pos_read s;
            s1 = s\<lparr> rs_pos_read := rs_pos_read s + 1 \<rparr>;
            s2 = (if rs_pos_read s1 \<ge> rs_len s1 then s1\<lparr> rs_pos_read := 0 \<rparr> else s1);
            s3 = s2\<lparr> rs_overflow := False \<rparr>
        in (uint b, s3))"

text \<open>
  \<open>int RingStream::count()\<close>.  The \<open>while\<close> loop has no bound of its own, so it is a
  partial function: \<open>None\<close> is the loop that never leaves.
\<close>

partial_function (option) count_loop :: "ring_stream \<Rightarrow> nat \<Rightarrow> nat \<Rightarrow> nat option" where
  "count_loop s peek counter =
     (if rs_buffer s ! peek \<noteq> 0
      then count_loop s (if peek + 1 \<ge> rs_len s then 0 else peek + 1) (counter + 1)
      else Some counter)"

declare count_loop.simps [code]

definition RingStream_count :: "ring_stream \<Rightarrow> nat option" where
  "RingStream_count s = count_loop s (rs_pos_read s) 0"

text \<open>
  Sequences of calls, for the claims about what a client can reach: \<open>rs_run\<close> gives
  the state after the calls, \<open>write_all\<close> the results of a sequence of writes.
\<close>

datatype rs_call = Write byte | Read

fun rs_step :: "ring_stream \<Rightarrow> rs_call \<Rightarrow> ring_stream" where
  "rs_step s (Write b) = snd (RingStream_write b s)"
| "rs_step s Read = snd (RingStream_read s)"

definition rs_run :: "rs_call list \<Rightarrow> ring_stream \<Rightarrow> ring_stream" where
  "rs_run cs s = foldl rs_step s cs"

fun write_all :: "byte list \<Rightarrow> ring_stream \<Rightarrow> nat list \<times> ring_stream" where
  "write_all [] s = ([], s)"
| "write_all (b # bs) s =
     (let (r, s1) = RingStream_write b s; (rs, s2) = write_all bs s1 in (r # rs, s2))"

text \<open>
  \<open>held s cs\<close>: the bytes that the calls \<open>cs\<close>, made from the state \<open>s\<close>, get accepted,
  less the bytes that they read.  \<open>pending s\<close>: the distance from the read cursor
  forward to the write cursor.
\<close>

fun held :: "ring_stream \<Rightarrow> rs_call list \<Rightarrow> int" where
  "held s [] = 0"
| "held s (Write b # cs) =
     int (fst (RingStream_write b s)) + held (snd (RingStream_write b s)) cs"
| "held s (Read # cs) =
     (if fst (RingStream_read s) = - 1 then 0 else - 1) + held (snd (RingStream_read s)) cs"

definition pending :: "ring_stream \<Rightarrow> nat" where
  "pending s =
     (if rs_pos_read s \<le> rs_pos_write s then rs_pos_write s - rs_pos_read s
      else rs_pos_write s + rs_len s - rs_pos_read s)"

text \<open>The shape every state of a stream of capacity at least one has.\<close>

definition rs_wf :: "ring_stream \<Rightarrow> bool" where
  "rs_wf s \<longleftrightarrow>
     0 < rs_len s \<and> length (rs_buffer s) = rs_len s \<and>
     rs_pos_write s < rs_len s \<and> rs_pos_read s < rs_len s"

definition rs_inv :: "ring_stream \<Rightarrow> bool" where
  "rs_inv s \<longleftrightarrow> rs_wf s \<and> (\<not> rs_overflow s \<or> rs_pos_read s = rs_pos_write s)"

section \<open>Display (Display.cpp)\<close>

text \<open>
  Display.h is not among the sources.  The compile-time constants it (and config.h)
  define are the fields of a configuration that every function takes; nothing below
  fixes their values.  \<open>SCROLLMODE\<close> is the preprocessor symbol that the two \<open>#if\<close>
  tests read.
\<close>

record config =
  MAX_CHARACTER_ROWS :: nat
  MAX_CHARACTER_COLS :: nat
  ROW_INITIAL :: nat
  DISPLAY_SCROLL_TIME :: "32 word"
  SCROLLMODE :: nat

text \<open>
  The device driver, as far as this file uses it: its two dimensions, and the native
  operations it has been sent, oldest first.
\<close>

datatype native_call = clearNative | setRowNative nat | writeNative byte

record DisplayDevice =
  getNumCols :: nat
  getNumRows :: nat
  calls :: "native_call list"

definition send :: "native_call \<Rightarrow> DisplayDevice \<Rightarrow> DisplayDevice" where
  "send c dev = dev\<lparr> calls := calls dev @ [c] \<rparr>"

text \<open>
  The object.  \<open>bufferPointer\<close> is a \<open>char*\<close> that is null or points into \<open>buffer\<close>:
  \<open>None\<close>, or \<open>Some\<close> of the offset from \<open>&buffer[0]\<close>.  The indices and counters
  are natural numbers: whatever width Display.h gives them, they count rows, columns
  and slots, and do not wrap as long as \<open>MAX_CHARACTER_ROWS\<close>, \<open>MAX_CHARACTER_COLS\<close> and
  the number of rows of the device are below 255.  The argument of \<open>_setRow\<close> is a
  \<open>uint8_t\<close>, one of the natural numbers below 256.  The clock is the
  \<open>unsigned long\<close> of \<open>millis()\<close>, 32 bits wide, and its subtraction wraps.
\<close>

record display =
  deviceDriver :: DisplayDevice
  numCharacterColumns :: nat
  numCharacterRows :: nat
  rowBuffer :: "byte list list"
  topRow :: nat
  hotRow :: nat
  hotCol :: nat
  lastScrollTime :: "32 word"
  rowFirst :: nat
  rowNext :: nat
  slot :: nat
  charIndex :: nat
  buffer :: "byte list"
  bufferPointer :: "nat option"
  noMoreRowsToDisplay :: bool

text \<open>\<open>rowBuffer[r][c] = v\<close>, for a row and a column inside the array.\<close>

definition store :: "byte list list \<Rightarrow> nat \<Rightarrow> nat \<Rightarrow> byte \<Rightarrow> byte list list" where
  "store rb r c v = rb[r := (rb ! r)[c := v]]"

text \<open>
  The constructor.  It assigns the driver, the two dimensions, the first byte of every
  row and \<open>topRow\<close>; the other members keep what the object \<open>d\<close> held when the body
  was entered.  \<open>addDisplay\<close> belongs to the display registry, which is another class.
\<close>

definition Display :: "config \<Rightarrow> DisplayDevice \<Rightarrow> display \<Rightarrow> display" where
  "Display cfg dev d =
     (let d1 = d\<lparr> deviceDriver := dev \<rparr>;
          d2 = d1\<lparr> numCharacterColumns := getNumCols (deviceDriver d1) \<rparr>;
          d3 = d2\<lparr> numCharacterRows := getNumRows (deviceDriver d2) \<rparr>;
          d4 = d3\<lparr> rowBuffer :=
                 fold (\<lambda>row rb. store rb row 0 0) [0 ..< MAX_CHARACTER_ROWS cfg] (rowBuffer d3) \<rparr>
      in d4\<lparr> topRow := ROW_INITIAL cfg \<rparr>)"

text \<open>\<open>void Display::_clear()\<close>.\<close>

definition Display_clear :: "config \<Rightarrow> display \<Rightarrow> display" where
  "Display_clear cfg d =
     (let d1 = d\<lparr> deviceDriver := send clearNative (deviceDriver d) \<rparr>;
          d2 = d1\<lparr> rowBuffer :=
                 fold (\<lambda>row rb. store rb row 0 0) [0 ..< MAX_CHARACTER_ROWS cfg] (rowBuffer d1) \<rparr>
      in d2\<lparr> topRow := ROW_INITIAL cfg \<rparr>)"

text \<open>
  \<open>void Display::_setRow(uint8_t line)\<close>.  The source has no test on \<open>line\<close>; a store
  to \<open>rowBuffer[hotRow][0]\<close> with \<open>hotRow\<close> beyond the last row is outside the array,
  and is the fault \<open>OutOfBoundsStore\<close> of that row and column.
\<close>

datatype fault = OutOfBoundsStore nat nat

definition Display_setRow :: "config \<Rightarrow> nat \<Rightarrow> display \<Rightarrow> fault + display" where
  "Display_setRow cfg line d =
     (let d1 = d\<lparr> hotRow := line \<rparr>;
          d2 = d1\<lparr> hotCol := 0 \<rparr>
      in if hotRow d2 < MAX_CHARACTER_ROWS cfg
         then Inr (d2\<lparr> rowBuffer := store (rowBuffer d2) (hotRow d2) 0 0 \<rparr>)
         else Inl (OutOfBoundsStore (hotRow d2) 0))"

text \<open>
  \<open>size_t Display::_write(uint8_t b)\<close>.  The first component is the value of the
  \<open>return\<close> expression (\<open>-1\<close> or \<open>1\<close>) before its conversion to \<open>size_t\<close>.
\<close>

definition Display_write :: "config \<Rightarrow> byte \<Rightarrow> display \<Rightarrow> int \<times> display" where
  "Display_write cfg b d =
     (if hotRow d \<ge> MAX_CHARACTER_ROWS cfg \<or> hotCol d \<ge> MAX_CHARACTER_COLS cfg then (- 1, d)
      else
        let d1 = d\<lparr> rowBuffer := store (rowBuffer d) (hotRow d) (hotCol d) b \<rparr>;
            d2 = d1\<lparr> hotCol := hotCol d1 + 1 \<rparr>;
            d3 = d2\<lparr> rowBuffer := store (rowBuffer d2) (hotRow d2) (hotCol d2) 0 \<rparr>
        in (1, d3))"

fun write_chars :: "config \<Rightarrow> byte list \<Rightarrow> display \<Rightarrow> int list \<times> display" where
  "write_chars cfg [] d = ([], d)"
| "write_chars cfg (b # bs) d =
     (let (r, d1) = Display_write cfg b d; (rs, d2) = write_chars cfg bs d1 in (r # rs, d2))"

text \<open>
  \<open>bool Display::findNextNonBlankRow()\<close>: the result and the new state.  The \<open>while\<close>
  loop is left only by a \<open>return\<close> or when \<open>noMoreRowsToDisplay\<close> is set, so the
  function is partial: \<open>None\<close> is the loop that never leaves.
\<close>

partial_function (option) findNextNonBlankRow :: "config \<Rightarrow> display \<Rightarrow> (bool \<times> display) option" where
  "findNextNonBlankRow cfg d =
     (if \<not> noMoreRowsToDisplay d then
        let d1 = (if rowNext d = ROW_INITIAL cfg then d\<lparr> rowNext := 0 \<rparr>
                  else d\<lparr> rowNext := rowNext d + 1 \<rparr>)
        in if SCROLLMODE cfg = 1 then
             (if rowNext d1 \<ge> MAX_CHARACTER_ROWS cfg
              then Some (False, d1\<lparr> rowNext := ROW_INITIAL cfg, noMoreRowsToDisplay := True \<rparr>)
              else if rowBuffer d1 ! rowNext d1 ! 0 \<noteq> 0 then Some (True, d1)
              else findNextNonBlankRow cfg d1)
           else
             (let d2 = (if rowNext d1 \<ge> MAX_CHARACTER_ROWS cfg then d1\<lparr> rowNext := 0 \<rparr> else d1)
              in if rowNext d2 = rowFirst d2
                 then Some (False, d2\<lparr> noMoreRowsToDisplay := True \<rparr>)
                 else if rowBuffer d2 ! rowNext d2 ! 0 \<noteq> 0 then Some (True, d2)
                 else findNextNonBlankRow cfg d2)
      else Some (False, d))"

declare findNextNonBlankRow.simps [code]

text \<open>
  One turn of the \<open>do\<close> loop of \<open>loop2\<close>.  The flag says whether the turn left the
  function through the \<open>return NULL\<close> at the end of a pass.  \<open>currentMillis\<close> is
  what \<open>millis()\<close> gave at the entry of \<open>loop2\<close>.
\<close>

definition loop2_body :: "config \<Rightarrow> 32 word \<Rightarrow> display \<Rightarrow> (bool \<times> display) option" where
  "loop2_body cfg currentMillis d =
     (case bufferPointer d of
        None \<Rightarrow>
          (let d1 = (if rowFirst d = ROW_INITIAL cfg then d\<lparr> rowFirst := rowNext d \<rparr> else d)
           in case findNextNonBlankRow cfg d1 of
                None \<Rightarrow> None
              | Some (found, d2) \<Rightarrow>
                  let d3 = (if found
                            then d2\<lparr> buffer :=
                                   fold (\<lambda>i buf. buf[i := rowBuffer d2 ! rowNext d2 ! i])
                                     [0 ..< MAX_CHARACTER_COLS cfg + 1] (buffer d2) \<rparr>
                            else d2\<lparr> buffer := (buffer d2)[0 := 0] \<rparr>);
                      d4 = d3\<lparr> deviceDriver := send (setRowNative (slot d3)) (deviceDriver d3) \<rparr>;
                      d5 = d4\<lparr> charIndex := 0 \<rparr>
                  in Some (False, d5\<lparr> bufferPointer := Some 0 \<rparr>))
      | Some p \<Rightarrow>
          (let ch = buffer d ! p;
               d1 = (if ch \<noteq> 0
                     then d\<lparr> deviceDriver := send (writeNative ch) (deviceDriver d),
                             bufferPointer := Some (p + 1) \<rparr>
                     else d\<lparr> deviceDriver := send (writeNative 32) (deviceDriver d) \<rparr>);
               d2 = d1\<lparr> charIndex := charIndex d1 + 1 \<rparr>
           in if charIndex d2 \<ge> MAX_CHARACTER_COLS cfg then
                (let d3 = d2\<lparr> bufferPointer := None \<rparr>;
                     d4 = d3\<lparr> slot := slot d3 + 1 \<rparr>
                 in if slot d4 \<ge> numCharacterRows d4 then
                      (case (if SCROLLMODE cfg = 2 \<and> \<not> noMoreRowsToDisplay d4
                             then findNextNonBlankRow cfg (d4\<lparr> rowNext := rowFirst d4 \<rparr>)
                             else Some (False, d4)) of
                         None \<Rightarrow> None
                       | Some (found, d5) \<Rightarrow>
                           Some (True, d5\<lparr> noMoreRowsToDisplay := False, slot := 0,
                                          rowFirst := ROW_INITIAL cfg,
                                          lastScrollTime := currentMillis \<rparr>))
                    else Some (False, d4))
              else Some (False, d2)))"

text \<open>The loop \<open>do { ... } while (force)\<close>.\<close>

partial_function (option) loop2_do :: "config \<Rightarrow> bool \<Rightarrow> 32 word \<Rightarrow> display \<Rightarrow> display option" where
  "loop2_do cfg force currentMillis d =
     (case loop2_body cfg currentMillis d of
        None \<Rightarrow> None
      | Some (returned, d1) \<Rightarrow>
          if returned then Some d1
          else if force then loop2_do cfg force currentMillis d1
          else Some d1)"

declare loop2_do.simps [code]

text \<open>
  \<open>Display *Display::loop2(bool force)\<close>.  The pointer it returns is always null, so
  the result is the new state only.
\<close>

definition loop2 :: "config \<Rightarrow> bool \<Rightarrow> 32 word \<Rightarrow> display \<Rightarrow> display option" where
  "loop2 cfg force currentMillis d =
     (if \<not> force then
        (if currentMillis - lastScrollTime d < DISPLAY_SCROLL_TIME cfg then Some d
         else loop2_do cfg force currentMillis d)
      else
        loop2_do cfg force currentMillis
          (d\<lparr> rowFirst := ROW_INITIAL cfg, rowNext := ROW_INITIAL cfg, bufferPointer := None,
              noMoreRowsToDisplay := False, slot := 0 \<rparr>))"

text \<open>
  The shape the arrays have by their declarations: \<open>rowBuffer\<close> is
  \<open>MAX_CHARACTER_ROWS\<close> rows of \<open>MAX_CHARACTER_COLS + 1\<close> bytes (the bounds that \<open>_write\<close>
  and the copy loop of \<open>loop2\<close> use), and \<open>buffer\<close> is one such row.
\<close>

definition shaped :: "config \<Rightarrow> display \<Rightarrow> bool" where
  "shaped cfg d \<longleftrightarrow>
     length (rowBuffer d) = MAX_CHARACTER_ROWS cfg \<and>
     list_all (\<lambda>row. length row = MAX_CHARACTER_COLS cfg + 1) (rowBuffer d) \<and>
     length (buffer d) = MAX_CHARACTER_COLS cfg + 1"

text \<open>
  \<open>void Display::_refresh()\<close> is \<open>loop2(true)\<close>; \<open>refreshes\<close> is a sequence of such
  calls, one for each reading of the clock.
\<close>

definition Display_refresh :: "config \<Rightarrow> 32 word \<Rightarrow> display \<Rightarrow> display option" where
  "Display_refresh cfg currentMillis d = loop2 cfg True currentMillis d"

fun refreshes :: "config \<Rightarrow> 32 word list \<Rightarrow> display \<Rightarrow> display option" where
  "refreshes cfg [] d = Some d"
| "refreshes cfg (t # ts) d =
     (case Display_refresh cfg t d of None \<Rightarrow> None | Some d1 \<Rightarrow> refreshes cfg ts d1)"

text \<open>
  \<open>void Display::_displayLoop()\<close> is \<open>loop2(false)\<close> when the device is not busy;
  \<open>loops\<close> is a sequence of calls \<open>loop2(false)\<close>, one for each reading of the clock.
\<close>

fun loops :: "config \<Rightarrow> 32 word list \<Rightarrow> display \<Rightarrow> display option" where
  "loops cfg [] d = Some d"
| "loops cfg (t # ts) d =
     (case loop2 cfg False t d of None \<Rightarrow> None | Some d1 \<Rightarrow> loops cfg ts d1)"

section \<open>Vocabulary of the theorems\<close>

subsection \<open>The parts of one turn of the loop\<close>

text \<open>
  Names for the state changes that \<open>loop2_body\<close> and \<open>loop2\<close> are made of:
  \<open>first_row\<close> and \<open>stage\<close> are the branch that positions a slot, \<open>put_char\<close> is the
  branch that writes one character, \<open>next_slot\<close> and \<open>end_pass\<close> are what follows the
  last character of a slot and of a pass, \<open>restart\<close> is the reset of a forced call.
  \<open>put_chars k\<close> is \<open>k\<close> characters in a row and \<open>after_slot\<close> a whole slot.
\<close>

definition first_row :: "config \<Rightarrow> display \<Rightarrow> display" where
  "first_row cfg d = (if rowFirst d = ROW_INITIAL cfg then d\<lparr> rowFirst := rowNext d \<rparr> else d)"

definition stage :: "config \<Rightarrow> bool \<Rightarrow> display \<Rightarrow> display" where
  "stage cfg found d =
     (if found
      then d\<lparr> buffer := fold (\<lambda>i buf. buf[i := rowBuffer d ! rowNext d ! i])
                            [0 ..< MAX_CHARACTER_COLS cfg + 1] (buffer d) \<rparr>
      else d\<lparr> buffer := (buffer d)[0 := 0] \<rparr>)
     \<lparr> deviceDriver := send (setRowNative (slot d)) (deviceDriver d), charIndex := 0,
       bufferPointer := Some 0 \<rparr>"

definition put_char :: "display \<Rightarrow> nat \<Rightarrow> display" where
  "put_char d p =
     (if buffer d ! p \<noteq> 0
      then d\<lparr> deviceDriver := send (writeNative (buffer d ! p)) (deviceDriver d),
              bufferPointer := Some (p + 1) \<rparr>
      else d\<lparr> deviceDriver := send (writeNative 32) (deviceDriver d) \<rparr>)
     \<lparr> charIndex := charIndex d + 1 \<rparr>"

definition next_slot :: "display \<Rightarrow> display" where
  "next_slot d = d\<lparr> bufferPointer := None, slot := slot d + 1 \<rparr>"

definition end_pass :: "config \<Rightarrow> 32 word \<Rightarrow> display \<Rightarrow> display" where
  "end_pass cfg now d =
     d\<lparr> noMoreRowsToDisplay := False, slot := 0, rowFirst := ROW_INITIAL cfg,
        lastScrollTime := now \<rparr>"

definition restart :: "config \<Rightarrow> display \<Rightarrow> display" where
  "restart cfg d =
     d\<lparr> rowFirst := ROW_INITIAL cfg, rowNext := ROW_INITIAL cfg, bufferPointer := None,
        noMoreRowsToDisplay := False, slot := 0 \<rparr>"

fun put_chars :: "nat \<Rightarrow> display \<Rightarrow> display" where
  "put_chars 0 d = d"
| "put_chars (Suc k) d =
     (case bufferPointer d of None \<Rightarrow> d | Some p \<Rightarrow> put_chars k (put_char d p))"

definition after_slot :: "config \<Rightarrow> bool \<Rightarrow> display \<Rightarrow> display" where
  "after_slot cfg found d2 = next_slot (put_chars (MAX_CHARACTER_COLS cfg) (stage cfg found d2))"

text \<open>
  \<open>turns\<close> is a sequence of turns of the \<open>do\<close> loop, one for each reading of the
  clock, whichever calls of \<open>loop2\<close> they belong to.  A reading of the clock is \<open>due\<close>
  in a state when the test of the scroll interval, at the head of \<open>loop2(false)\<close>, lets
  the call through.
\<close>

fun turns :: "config \<Rightarrow> 32 word list \<Rightarrow> display \<Rightarrow> display option" where
  "turns cfg [] d = Some d"
| "turns cfg (t # ts) d =
     (case loop2_body cfg t d of None \<Rightarrow> None | Some (returned, d1) \<Rightarrow> turns cfg ts d1)"

definition due :: "config \<Rightarrow> display \<Rightarrow> 32 word \<Rightarrow> bool" where
  "due cfg d currentMillis \<longleftrightarrow> \<not> currentMillis - lastScrollTime d < DISPLAY_SCROLL_TIME cfg"

subsection \<open>What the device receives\<close>

text \<open>
  \<open>slot_chars b p k\<close> are the next \<open>k\<close> characters written from the line \<open>b\<close> with the
  pointer at offset \<open>p\<close>.  \<open>pad\<close> says the same without the pointer: the bytes of the
  line before its first zero byte, cut or filled with spaces (32) to
  \<open>MAX_CHARACTER_COLS\<close> characters.  \<open>slot_calls\<close> is the traffic of one slot,
  \<open>line_calls\<close> the same for a given text and width, \<open>traffic\<close> is what the device
  has received when a call has returned, and \<open>write_counts\<close> gives, for each
  \<open>setRowNative\<close> of a sequence of operations, the number of \<open>writeNative\<close> that
  follow it directly.
\<close>

fun slot_chars :: "byte list \<Rightarrow> nat \<Rightarrow> nat \<Rightarrow> byte list" where
  "slot_chars b p 0 = []"
| "slot_chars b p (Suc k) =
     (if b ! p \<noteq> 0 then b ! p # slot_chars b (p + 1) k else 32 # slot_chars b p k)"

definition pad :: "config \<Rightarrow> byte list \<Rightarrow> byte list" where
  "pad cfg l =
     (let shown = takeWhile (\<lambda>b. b \<noteq> 0) l
      in take (MAX_CHARACTER_COLS cfg) shown @ replicate (MAX_CHARACTER_COLS cfg - length shown) 32)"

definition slot_calls :: "config \<Rightarrow> nat \<Rightarrow> byte list \<Rightarrow> native_call list" where
  "slot_calls cfg s l = setRowNative s # map writeNative (pad cfg l)"

definition traffic :: "display option \<Rightarrow> native_call list option" where
  "traffic r = map_option (\<lambda>d. calls (deviceDriver d)) r"

definition line_calls :: "nat \<Rightarrow> byte list \<Rightarrow> nat \<Rightarrow> native_call list" where
  "line_calls s line width =
     setRowNative s # map writeNative line @ replicate (width - length line) (writeNative 32)"

fun is_write :: "native_call \<Rightarrow> bool" where
  "is_write (writeNative b) = True"
| "is_write c = False"

fun write_counts :: "native_call list \<Rightarrow> nat list" where
  "write_counts [] = []"
| "write_counts (setRowNative s # cs) = length (takeWhile is_write cs) # write_counts cs"
| "write_counts (c # cs) = write_counts cs"

subsection \<open>Blank rows and rows with text\<close>

text \<open>
  A row is blank when its first byte is zero.  \<open>steps_to n a t\<close> is the number of steps
  from index \<open>a\<close> forward to index \<open>t\<close>, going round a ring of \<open>n\<close> rows.
\<close>

definition all_blank :: "config \<Rightarrow> display \<Rightarrow> bool" where
  "all_blank cfg d \<longleftrightarrow>
     length (rowBuffer d) = MAX_CHARACTER_ROWS cfg \<and> list_all (\<lambda>row. row ! 0 = 0) (rowBuffer d)"

definition has_text :: "config \<Rightarrow> display \<Rightarrow> bool" where
  "has_text cfg d \<longleftrightarrow> list_ex (\<lambda>row. row ! 0 \<noteq> 0) (take (MAX_CHARACTER_ROWS cfg) (rowBuffer d))"

definition steps_to :: "nat \<Rightarrow> nat \<Rightarrow> nat \<Rightarrow> nat" where
  "steps_to n a t = (if a < t then t - a else t + n - a)"

subsection \<open>An example\<close>

text \<open>
  Values for the constants: eight rows, as the comment at the head of Display.cpp says,
  rows of 20 characters, 255 for \<open>ROW_INITIAL\<close>, and the scroll mode by row.  The
  device has 16 columns and 2 rows.  \<open>unset_display\<close> is an object before its
  constructor has run, \<open>blank_display\<close> the object the constructor makes of it, and
  \<open>five_rows\<close> that display after the texts \<open>A\<close> to \<open>E\<close> have been written to its rows 0
  to 4 with \<open>_setRow\<close> and \<open>_write\<close>.
\<close>

definition example_config :: config where
  "example_config =
     \<lparr> MAX_CHARACTER_ROWS = 8, MAX_CHARACTER_COLS = 20, ROW_INITIAL = 255,
       DISPLAY_SCROLL_TIME = 3000, SCROLLMODE = 2 \<rparr>"

definition lcd_16x2 :: DisplayDevice where
  "lcd_16x2 = \<lparr> getNumCols = 16, getNumRows = 2, calls = [] \<rparr>"

definition unset_display :: display where
  "unset_display =
     \<lparr> deviceDriver = \<lparr> getNumCols = 0, getNumRows = 0, calls = [] \<rparr>,
       numCharacterColumns = 0, numCharacterRows = 0,
       rowBuffer = replicate 8 (replicate 21 0),
       topRow = 0, hotRow = 0, hotCol = 0, lastScrollTime = 0, rowFirst = 0, rowNext = 0,
       slot = 0, charIndex = 0, buffer = replicate 21 0, bufferPointer = None,
       noMoreRowsToDisplay = False \<rparr>"

definition blank_display :: display where
  "blank_display = Display example_config lcd_16x2 unset_display"

definition set_text :: "config \<Rightarrow> nat \<Rightarrow> byte list \<Rightarrow> display \<Rightarrow> display" where
  "set_text cfg r bs d =
     (case Display_setRow cfg r d of Inl e \<Rightarrow> d | Inr d1 \<Rightarrow> snd (write_chars cfg bs d1))"

definition five_rows :: display where
  "five_rows =
     set_text example_config 4 [69]
       (set_text example_config 3 [68]
         (set_text example_config 2 [67]
           (set_text example_config 1 [66]
             (set_text example_config 0 [65] blank_display))))"

section \<open>Theorems about RingStream\<close>

subsection \<open>The invariant of the cursors\<close>

lemma rs_wf_RingStream: "0 < n \<Longrightarrow> length mem = n \<Longrightarrow> rs_wf (RingStream n mem)"
  by (simp add: rs_wf_def RingStream_def)

lemma rs_inv_RingStream: "0 < n \<Longrightarrow> length mem = n \<Longrightarrow> rs_inv (RingStream n mem)"
  by (simp add: rs_inv_def rs_wf_def RingStream_def)

lemma rs_inv_write: "rs_inv s \<Longrightarrow> rs_inv (snd (RingStream_write b s))"
  by (auto simp: rs_inv_def rs_wf_def RingStream_write_def Let_def)

lemma rs_inv_read: "rs_inv s \<Longrightarrow> rs_inv (snd (RingStream_read s))"
  by (auto simp: rs_inv_def rs_wf_def RingStream_read_def Let_def)

lemma rs_inv_step: "rs_inv s \<Longrightarrow> rs_inv (rs_step s c)"
  by (cases c) (simp_all add: rs_inv_write rs_inv_read)

lemma rs_inv_run: "rs_inv s \<Longrightarrow> rs_inv (rs_run cs s)"
  unfolding rs_run_def
  by (induction cs arbitrary: s) (simp_all add: rs_inv_step)

text \<open>
  C10.  In every state reached from the constructor by calls of \<open>write\<close> and \<open>read\<close>,
  a set overflow flag means that the read cursor equals the write cursor; so \<open>read\<close>
  finds the buffer empty (it answers \<open>-1\<close>) and \<open>write\<close> rejects the byte (it answers
  0), and neither changes the state.
\<close>

theorem overflow_cursors_equal:
  assumes "0 < n" and "length mem = n"
    and "s = rs_run cs (RingStream n mem)"
    and "rs_overflow s"
  shows "rs_pos_read s = rs_pos_write s \<and> RingStream_read s = (- 1, s) \<and> RingStream_write b s = (0, s)"
proof -
  have "rs_inv s"
    using assms(1-3) by (simp add: rs_inv_run rs_inv_RingStream)
  with assms(4) have eq: "rs_pos_read s = rs_pos_write s"
    by (simp add: rs_inv_def)
  show ?thesis
    using eq assms(4) by (simp add: RingStream_read_def RingStream_write_def)
qed

text \<open>
  The invariant at work: a stream of capacity 2 after two writes.
\<close>

theorem overflow_cursors_equal_witness:
  "rs_overflow (rs_run [Write 65, Write 66] (RingStream 2 [0, 0])) \<and>
   rs_pos_read (rs_run [Write 65, Write 66] (RingStream 2 [0, 0])) = 0 \<and>
   rs_pos_write (rs_run [Write 65, Write 66] (RingStream 2 [0, 0])) = 0 \<and>
   fst (RingStream_read (rs_run [Write 65, Write 66] (RingStream 2 [0, 0]))) = - 1 \<and>
   fst (RingStream_write 67 (rs_run [Write 65, Write 66] (RingStream 2 [0, 0]))) = 0"
proof -
  have ov: "rs_overflow (rs_run [Write 65, Write 66] (RingStream 2 [0, 0]))"
    by (simp add: rs_run_def RingStream_def RingStream_write_def Let_def)
  have pr: "rs_pos_read (rs_run [Write 65, Write 66] (RingStream 2 [0, 0])) = 0"
    by (simp add: rs_run_def RingStream_def RingStream_write_def Let_def)
  show ?thesis
    using overflow_cursors_equal [of 2 "[0, 0]" _ "[Write 65, Write 66]" 67, OF _ _ refl ov]
      ov pr
    by simp
qed

subsection \<open>Filling an empty stream\<close>

lemma write_all_accept:
  "rs_wf s \<Longrightarrow> \<not> rs_overflow s \<Longrightarrow> rs_pos_read s = 0 \<Longrightarrow>
   rs_pos_write s + length bs < rs_len s \<Longrightarrow>
   fst (write_all bs s) = replicate (length bs) 1 \<and>
   rs_wf (snd (write_all bs s)) \<and> \<not> rs_overflow (snd (write_all bs s)) \<and>
   rs_pos_read (snd (write_all bs s)) = 0 \<and>
   rs_pos_write (snd (write_all bs s)) = rs_pos_write s + length bs \<and>
   rs_len (snd (write_all bs s)) = rs_len s"
proof (induction bs arbitrary: s)
  case Nil
  then show ?case by simp
next
  case (Cons b bs)
  let ?s1 = "snd (RingStream_write b s)"
  have w: "fst (RingStream_write b s) = 1" "rs_wf ?s1" "\<not> rs_overflow ?s1" "rs_pos_read ?s1 = 0"
    "rs_pos_write ?s1 = rs_pos_write s + 1" "rs_len ?s1 = rs_len s"
    using Cons.prems by (auto simp: RingStream_write_def Let_def rs_wf_def)
  have "rs_pos_write ?s1 + length bs < rs_len ?s1"
    using w Cons.prems by simp
  from Cons.IH [OF w(2) w(3) w(4) this] w show ?case
    by (simp add: split_beta)
qed

lemma write_last_slot:
  "rs_wf s \<Longrightarrow> \<not> rs_overflow s \<Longrightarrow> rs_pos_read s = 0 \<Longrightarrow> rs_pos_write s + 1 = rs_len s \<Longrightarrow>
   fst (RingStream_write b s) = 0 \<and> rs_overflow (snd (RingStream_write b s))"
  by (simp add: RingStream_write_def Let_def rs_wf_def)

lemma byte_not_minus_one: "uint (x :: byte) \<noteq> - 1"
  using uint_ge_0 [of x] by arith

lemma held_stuck:
  "rs_overflow s \<Longrightarrow> rs_pos_read s = rs_pos_write s \<Longrightarrow> held s cs = 0"
proof (induction cs)
  case Nil
  then show ?case by simp
next
  case (Cons c cs)
  then show ?case
    by (cases c) (simp_all add: RingStream_write_def RingStream_read_def)
qed

lemma held_bound:
  "rs_wf s \<Longrightarrow> \<not> rs_overflow s \<Longrightarrow> held s cs + int (pending s) \<le> int (rs_len s) - 1"
proof (induction cs arbitrary: s)
  case Nil
  then show ?case by (auto simp: pending_def rs_wf_def)
next
  case (Cons c cs)
  show ?case
  proof (cases c)
    case (Write b)
    let ?s' = "snd (RingStream_write b s)"
    show ?thesis
    proof (cases "rs_overflow ?s'")
      case True
      have "rs_pos_read ?s' = rs_pos_write ?s'" "fst (RingStream_write b s) = 0"
        using True Cons.prems by (auto simp: RingStream_write_def Let_def split: if_splits)
      with held_stuck [OF True] Cons.prems show ?thesis
        by (auto simp: Write pending_def rs_wf_def)
    next
      case False
      have w: "rs_wf ?s'" "fst (RingStream_write b s) = 1" "pending ?s' = pending s + 1"
        "rs_len ?s' = rs_len s"
        using False Cons.prems
        by (auto simp: RingStream_write_def Let_def rs_wf_def pending_def split: if_splits)
      from Cons.IH [OF w(1) False] w show ?thesis
        by (simp add: Write)
    qed
  next
    case Read
    let ?s' = "snd (RingStream_read s)"
    show ?thesis
    proof (cases "rs_pos_read s = rs_pos_write s")
      case True
      then have "RingStream_read s = (- 1, s)" by (simp add: RingStream_read_def)
      with Cons.IH [OF Cons.prems] show ?thesis by (simp add: Read)
    next
      case False
      have r: "rs_wf ?s'" "\<not> rs_overflow ?s'" "fst (RingStream_read s) \<noteq> - 1"
        "pending s = pending ?s' + 1" "rs_len ?s' = rs_len s"
        using False Cons.prems byte_not_minus_one [of "rs_buffer s ! rs_pos_read s"]
        by (auto simp: RingStream_read_def Let_def rs_wf_def pending_def split: if_splits)
      from Cons.IH [OF r(1,2)] r show ?thesis
        by (simp add: Read)
    qed
  qed
qed

lemma held_fresh:
  "0 < C \<Longrightarrow> length mem = C \<Longrightarrow> held (RingStream C mem) cs \<le> int C - 1"
  using held_bound [OF rs_wf_RingStream, of C mem cs]
  by (simp add: RingStream_def pending_def)

text \<open>
  C6.  On a freshly constructed stream of capacity \<open>C\<close>, each of the first \<open>C - 1\<close>
  calls of \<open>write\<close> returns 1; the next one returns 0 and sets the overflow flag; and
  in every sequence of writes and reads after construction, the bytes accepted exceed
  the bytes read by at most \<open>C - 1\<close>.  (The claim asks \<open>C \<ge> 2\<close>; capacity 1 behaves
  the same way.)
\<close>

theorem first_writes_accepted:
  assumes "0 < C" and "length mem = C" and "length bs = C - 1"
  shows "fst (write_all bs (RingStream C mem)) = replicate (C - 1) 1 \<and>
         \<not> rs_overflow (snd (write_all bs (RingStream C mem))) \<and>
         fst (RingStream_write b (snd (write_all bs (RingStream C mem)))) = 0 \<and>
         rs_overflow (snd (RingStream_write b (snd (write_all bs (RingStream C mem))))) \<and>
         held (RingStream C mem) cs \<le> int C - 1"
proof -
  let ?s0 = "RingStream C mem"
  have s0: "rs_wf ?s0" "\<not> rs_overflow ?s0" "rs_pos_read ?s0 = 0" "rs_pos_write ?s0 = 0"
    "rs_len ?s0 = C"
    using assms(1,2) by (simp_all add: rs_wf_RingStream) (simp_all add: RingStream_def)
  have acc: "fst (write_all bs ?s0) = replicate (length bs) 1 \<and>
      rs_wf (snd (write_all bs ?s0)) \<and> \<not> rs_overflow (snd (write_all bs ?s0)) \<and>
      rs_pos_read (snd (write_all bs ?s0)) = 0 \<and>
      rs_pos_write (snd (write_all bs ?s0)) = length bs \<and>
      rs_len (snd (write_all bs ?s0)) = C"
    using write_all_accept [OF s0(1,2,3), of bs] s0(4,5) assms(1,3) by simp
  have full: "fst (RingStream_write b (snd (write_all bs ?s0))) = 0 \<and>
      rs_overflow (snd (RingStream_write b (snd (write_all bs ?s0))))"
    using acc assms(1,3) by (intro write_last_slot) simp_all
  from acc full held_fresh [OF assms(1,2), of cs] assms(3) show ?thesis by simp
qed

text \<open>
  Capacity 3: two bytes go in, the third is refused.
\<close>

theorem first_writes_accepted_witness:
  "fst (write_all [1, 2] (RingStream 3 [9, 9, 9])) = [1, 1] \<and>
   \<not> rs_overflow (snd (write_all [1, 2] (RingStream 3 [9, 9, 9]))) \<and>
   fst (RingStream_write 3 (snd (write_all [1, 2] (RingStream 3 [9, 9, 9])))) = 0 \<and>
   rs_overflow (snd (RingStream_write 3 (snd (write_all [1, 2] (RingStream 3 [9, 9, 9]))))) \<and>
   held (RingStream 3 [9, 9, 9]) [Write 1, Read, Write 2, Write 3, Write 4, Read] \<le> 2"
proof -
  have h: "(0::nat) < 3" "length [9, 9, 9 :: byte] = 3" "length [1, 2 :: byte] = 3 - 1"
    by simp_all
  have r: "replicate (3 - 1) (1::nat) = [1, 1]"
    by (simp add: numeral_2_eq_2)
  from first_writes_accepted [OF h, of 3 "[Write 1, Read, Write 2, Write 3, Write 4, Read]"]
  show ?thesis
    unfolding r by simp
qed

subsection \<open>After an overflow\<close>

lemma stuck_state:
  "rs_overflow s \<Longrightarrow> rs_pos_read s = rs_pos_write s \<Longrightarrow> rs_run cs s = s"
  unfolding rs_run_def
proof (induction cs)
  case Nil
  then show ?case by simp
next
  case (Cons c cs)
  then have "rs_step s c = s"
    by (cases c) (simp_all add: RingStream_write_def RingStream_read_def)
  with Cons show ?case by simp
qed

text \<open>
  C1 says that the first \<open>read\<close> after an overflow returns a byte and clears the flag.
  The code does not: whenever a \<open>write\<close> sets the flag, the \<open>read\<close> that follows
  returns \<open>-1\<close> and leaves the state as it is, and so does every later sequence of
  reads and writes.  The flag is never cleared again.
\<close>

theorem overflow_is_permanent:
  assumes "\<not> rs_overflow s" and "rs_overflow (snd (RingStream_write b s))"
  shows "RingStream_read (snd (RingStream_write b s)) = (- 1, snd (RingStream_write b s)) \<and>
         rs_run cs (snd (RingStream_write b s)) = snd (RingStream_write b s)"
proof -
  let ?s' = "snd (RingStream_write b s)"
  have eq: "rs_pos_read ?s' = rs_pos_write ?s'"
    using assms by (auto simp: RingStream_write_def Let_def split: if_splits)
  then have "RingStream_read ?s' = (- 1, ?s')"
    by (simp add: RingStream_read_def)
  with stuck_state [OF assms(2) eq] show ?thesis by simp
qed

text \<open>
  The failing input of C1: capacity 2, two writes, then reads and a write.
\<close>

theorem overflow_is_permanent_witness:
  "rs_overflow (rs_run [Write 65, Write 66] (RingStream 2 [0, 0])) \<and>
   RingStream_read (rs_run [Write 65, Write 66] (RingStream 2 [0, 0])) =
     (- 1, rs_run [Write 65, Write 66] (RingStream 2 [0, 0])) \<and>
   rs_overflow (rs_run [Write 65, Write 66, Read, Read, Write 67, Read] (RingStream 2 [0, 0]))"
proof -
  let ?s = "rs_run [Write 65] (RingStream 2 [0, 0])"
  have a: "\<not> rs_overflow ?s"
    by (simp add: rs_run_def RingStream_def RingStream_write_def Let_def)
  have b: "rs_overflow (snd (RingStream_write 66 ?s))"
    by (simp add: rs_run_def RingStream_def RingStream_write_def Let_def)
  have c: "rs_run [Write 65, Write 66] (RingStream 2 [0, 0]) = snd (RingStream_write 66 ?s)"
    by (simp add: rs_run_def)
  have d: "rs_run [Write 65, Write 66, Read, Read, Write 67, Read] (RingStream 2 [0, 0]) =
      rs_run [Read, Read, Write 67, Read] (snd (RingStream_write 66 ?s))"
    by (simp add: rs_run_def)
  show ?thesis
    using overflow_is_permanent [OF a b, of "[Read, Read, Write 67, Read]"] b
    unfolding c d by simp
qed

subsection \<open>Counting up to the terminator\<close>

lemma count_loop_Some_zero:
  assumes "count_loop s p c = Some r"
  shows "p < length (rs_buffer s) \<and> rs_len s = length (rs_buffer s) \<longrightarrow>
   (0::byte) \<in> set (rs_buffer s)"
proof (rule count_loop.raw_induct
    [where P = "\<lambda>s p c r. p < length (rs_buffer s) \<and> rs_len s = length (rs_buffer s) \<longrightarrow>
       (0::byte) \<in> set (rs_buffer s)", OF _ assms])
  fix f :: "ring_stream \<Rightarrow> nat \<Rightarrow> nat \<Rightarrow> nat option"
    and s :: ring_stream and peek counter r :: nat
  assume IH: "\<And>s p c r. f s p c = Some r \<Longrightarrow>
      p < length (rs_buffer s) \<and> rs_len s = length (rs_buffer s) \<longrightarrow> (0::byte) \<in> set (rs_buffer s)"
    and body: "(if rs_buffer s ! peek \<noteq> 0
      then f s (if rs_len s \<le> peek + 1 then 0 else peek + 1) (counter + 1)
      else Some counter) = Some r"
  show "peek < length (rs_buffer s) \<and> rs_len s = length (rs_buffer s) \<longrightarrow> (0::byte) \<in> set (rs_buffer s)"
  proof (cases "rs_buffer s ! peek = 0")
    case True
    then show ?thesis using nth_mem [of peek "rs_buffer s"] by auto
  next
    case False
    with body have "f s (if rs_len s \<le> peek + 1 then 0 else peek + 1) (counter + 1) = Some r"
      by simp
    from IH [OF this] show ?thesis by auto
  qed
qed

lemma count_loop_scan:
  assumes "0 \<in> set (rs_buffer s)" and "rs_len s = length (rs_buffer s)"
  shows "k = length (takeWhile (\<lambda>b. b \<noteq> 0) (rotate p (rs_buffer s))) \<Longrightarrow> p < rs_len s \<Longrightarrow>
     count_loop s p c = Some (c + k)"
proof (induction k arbitrary: p c)
  case 0
  have ne: "rs_buffer s \<noteq> []" using assms(1) by auto
  have "takeWhile (\<lambda>b. b \<noteq> 0) (rotate p (rs_buffer s)) = []"
    using 0 by simp
  then have "hd (rotate p (rs_buffer s)) = 0"
    using ne by (cases "rotate p (rs_buffer s)") (auto split: if_splits)
  then have "rs_buffer s ! p = 0"
    using ne 0(2) assms(2) by (simp add: hd_rotate_conv_nth)
  then show ?case
    by (subst count_loop.simps) simp
next
  case (Suc k)
  let ?xs = "rs_buffer s"
  let ?p' = "if p + 1 \<ge> rs_len s then 0 else p + 1"
  have ne: "?xs \<noteq> []" using assms(1) by auto
  obtain y ys where rot: "rotate p ?xs = y # ys"
    using ne by (cases "rotate p ?xs") auto
  have y: "y \<noteq> 0"
    using Suc.prems(1) rot by (auto split: if_splits)
  have hd: "?xs ! p = y"
    using ne Suc.prems(2) assms(2) rot hd_rotate_conv_nth [of ?xs p] by simp
  have "0 \<in> set (rotate p ?xs)" using assms(1) by simp
  then have zs: "0 \<in> set ys" using rot y by auto
  have "rotate ?p' ?xs = rotate (Suc p) ?xs"
  proof (cases "p + 1 \<ge> rs_len s")
    case True
    then have "Suc p = length ?xs" using Suc.prems(2) assms(2) by simp
    then have "rotate (Suc p) ?xs = ?xs" by simp
    then show ?thesis using True by simp
  next
    case False
    then show ?thesis by simp
  qed
  then have rot': "rotate ?p' ?xs = ys @ [y]"
    using rot by simp
  have "takeWhile (\<lambda>b. b \<noteq> 0) (ys @ [y]) = takeWhile (\<lambda>b. b \<noteq> 0) ys"
    using zs by simp
  then have k: "k = length (takeWhile (\<lambda>b. b \<noteq> 0) (rotate ?p' ?xs))"
    using Suc.prems(1) rot rot' y by simp
  have p': "?p' < rs_len s"
    using Suc.prems(2) by auto
  have "count_loop s p c = count_loop s ?p' (c + 1)"
    using hd y by (subst count_loop.simps) simp
  also have "\<dots> = Some (c + 1 + k)"
    using Suc.IH [OF k p'] .
  finally show ?case by simp
qed

text \<open>
  C2, as stated, fails: the scan of \<open>count\<close> never looks at the write cursor, and on a
  buffer without a zero byte it does not end.  After \<open>write 1, write 2, read, write 3,
  read, write 4\<close> a stream of capacity 3 holds the bytes 4, 2, 3.
\<close>

theorem count_never_returns_counterexample:
  "RingStream_count
     (rs_run [Write 1, Write 2, Read, Write 3, Read, Write 4] (RingStream 3 [0, 0, 0])) = None"
proof -
  let ?s = "rs_run [Write 1, Write 2, Read, Write 3, Read, Write 4] (RingStream 3 [0, 0, 0])"
  have s: "?s = \<lparr> rs_len = 3, rs_buffer = [4, 2, 3], rs_pos_write = 1, rs_pos_read = 2,
      rs_overflow = False \<rparr>"
    by (simp add: rs_run_def RingStream_def RingStream_write_def RingStream_read_def Let_def)
  have "count_loop ?s (rs_pos_read ?s) 0 = None"
  proof (cases "count_loop ?s (rs_pos_read ?s) 0")
    case (Some r)
    from count_loop_Some_zero [OF this] show ?thesis
      unfolding s by simp
  qed simp
  then show ?thesis by (simp add: RingStream_count_def)
qed

text \<open>
  C2, amended.  In a state whose cursors lie inside a buffer of the declared length and
  whose buffer holds a zero byte, \<open>count\<close> terminates and returns the number of bytes
  from the read cursor on, wrapping at the end of the buffer, up to the first zero
  byte.  The write cursor plays no part.
\<close>

theorem count_scans_to_zero:
  assumes "rs_wf s" and "0 \<in> set (rs_buffer s)"
  shows "RingStream_count s =
     Some (length (takeWhile (\<lambda>b. b \<noteq> 0) (rotate (rs_pos_read s) (rs_buffer s))))"
  using count_loop_scan [OF assms(2) _ refl, of "rs_pos_read s" 0] assms(1)
  by (simp add: RingStream_count_def rs_wf_def)

text \<open>
  The message \<open>AB\<close> with its terminator: \<open>count\<close> gives 2 and the next \<open>read\<close> still
  gives \<open>A\<close>.
\<close>

theorem count_scans_to_zero_witness:
  "RingStream_count (rs_run [Write 65, Write 66, Write 0] (RingStream 5 [7, 7, 7, 7, 7])) = Some 2 \<and>
   fst (RingStream_read (rs_run [Write 65, Write 66, Write 0] (RingStream 5 [7, 7, 7, 7, 7]))) = 65"
proof -
  let ?s = "rs_run [Write 65, Write 66, Write 0] (RingStream 5 [7, 7, 7, 7, 7])"
  have s: "?s = \<lparr> rs_len = 5, rs_buffer = [65, 66, 0, 7, 7], rs_pos_write = 3, rs_pos_read = 0,
      rs_overflow = False \<rparr>"
    by (simp add: rs_run_def RingStream_def RingStream_write_def Let_def)
  have wf: "rs_wf ?s" and z: "0 \<in> set (rs_buffer ?s)"
    unfolding s by (simp_all add: rs_wf_def)
  show ?thesis
    using count_scans_to_zero [OF wf z] unfolding s by (simp add: RingStream_read_def)
qed

section \<open>Theorems about Display\<close>

subsection \<open>What findNextNonBlankRow changes, and two of its results\<close>

lemma find_frame:
  assumes "findNextNonBlankRow cfg d = Some r"
  shows "snd r = d\<lparr> rowNext := rowNext (snd r), noMoreRowsToDisplay := noMoreRowsToDisplay (snd r) \<rparr>"
  apply (rule findNextNonBlankRow.raw_induct
    [where P = "\<lambda>cfg d r. snd r = d\<lparr> rowNext := rowNext (snd r), noMoreRowsToDisplay := noMoreRowsToDisplay (snd r) \<rparr>",
      OF _ assms])
  subgoal premises prems for f cfg d r
    using prems(2) by (auto simp: Let_def split: if_splits dest!: prems(1))
  done

lemma find_fields:
  assumes "findNextNonBlankRow cfg d = Some (found, d')"
  shows "deviceDriver d' = deviceDriver d" "slot d' = slot d" "rowBuffer d' = rowBuffer d"
    "buffer d' = buffer d" "numCharacterRows d' = numCharacterRows d" "rowFirst d' = rowFirst d"
    "charIndex d' = charIndex d" "bufferPointer d' = bufferPointer d"
    "numCharacterColumns d' = numCharacterColumns d" "lastScrollTime d' = lastScrollTime d"
    "hotRow d' = hotRow d" "hotCol d' = hotCol d" "topRow d' = topRow d"
proof -
  from find_frame [OF assms]
  have e: "d' = d\<lparr> rowNext := rowNext d', noMoreRowsToDisplay := noMoreRowsToDisplay d' \<rparr>"
    by simp
  show "deviceDriver d' = deviceDriver d" by (subst e) simp
  show "slot d' = slot d" by (subst e) simp
  show "rowBuffer d' = rowBuffer d" by (subst e) simp
  show "buffer d' = buffer d" by (subst e) simp
  show "numCharacterRows d' = numCharacterRows d" by (subst e) simp
  show "rowFirst d' = rowFirst d" by (subst e) simp
  show "charIndex d' = charIndex d" by (subst e) simp
  show "bufferPointer d' = bufferPointer d" by (subst e) simp
  show "numCharacterColumns d' = numCharacterColumns d" by (subst e) simp
  show "lastScrollTime d' = lastScrollTime d" by (subst e) simp
  show "hotRow d' = hotRow d" by (subst e) simp
  show "hotCol d' = hotCol d" by (subst e) simp
  show "topRow d' = topRow d" by (subst e) simp
qed

lemma find_from_initial:
  assumes "\<not> noMoreRowsToDisplay d" and "rowNext d = ROW_INITIAL cfg"
    and "0 < MAX_CHARACTER_ROWS cfg" and "rowFirst d \<noteq> 0" and "rowBuffer d ! 0 ! 0 \<noteq> 0"
  shows "findNextNonBlankRow cfg d = Some (True, d\<lparr> rowNext := 0 \<rparr>)"
  using assms by (subst findNextNonBlankRow.simps) (simp add: Let_def)

lemma find_next:
  assumes "\<not> noMoreRowsToDisplay d" and "rowNext d \<noteq> ROW_INITIAL cfg"
    and "rowNext d + 1 < MAX_CHARACTER_ROWS cfg" and "rowFirst d \<noteq> rowNext d + 1"
    and "rowBuffer d ! (rowNext d + 1) ! 0 \<noteq> 0"
  shows "findNextNonBlankRow cfg d = Some (True, d\<lparr> rowNext := rowNext d + 1 \<rparr>)"
  using assms by (subst findNextNonBlankRow.simps) (simp add: Let_def)

subsection \<open>When findNextNonBlankRow returns\<close>

lemma has_text_row:
  "has_text cfg d \<Longrightarrow> \<exists>t < MAX_CHARACTER_ROWS cfg. rowBuffer d ! t ! 0 \<noteq> 0"
  by (auto simp: has_text_def list_ex_length)

lemma has_text_same: "rowBuffer d' = rowBuffer d \<Longrightarrow> has_text cfg d' = has_text cfg d"
  by (simp add: has_text_def)

lemma find_scan_returns:
  assumes cfg: "SCROLLMODE cfg \<noteq> 1" "MAX_CHARACTER_ROWS cfg \<le> ROW_INITIAL cfg"
    and t: "t < MAX_CHARACTER_ROWS cfg"
  shows "rowNext d < MAX_CHARACTER_ROWS cfg \<Longrightarrow> t = rowFirst d \<or> rowBuffer d ! t ! 0 \<noteq> 0 \<Longrightarrow>
     findNextNonBlankRow cfg d \<noteq> None"
proof (induction "steps_to (MAX_CHARACTER_ROWS cfg) (rowNext d) t" arbitrary: d rule: less_induct)
  case less
  let ?n = "MAX_CHARACTER_ROWS cfg"
  let ?a = "if rowNext d + 1 \<ge> ?n then 0 else rowNext d + 1"
  let ?d2 = "d\<lparr> rowNext := ?a \<rparr>"
  have ni: "rowNext d \<noteq> ROW_INITIAL cfg"
    using less.prems(1) cfg(2) by simp
  show ?case
  proof (cases "noMoreRowsToDisplay d \<or> ?a = rowFirst d \<or> rowBuffer d ! ?a ! 0 \<noteq> 0")
    case True
    then show ?thesis
      using cfg(1) ni by (subst findNextNonBlankRow.simps) (auto simp: Let_def)
  next
    case False
    then have eq: "findNextNonBlankRow cfg d = findNextNonBlankRow cfg ?d2"
      using cfg(1) ni by (subst findNextNonBlankRow.simps) (auto simp: Let_def)
    have at: "?a \<noteq> t"
    proof
      assume e: "?a = t"
      from False have "?a \<noteq> rowFirst d" "rowBuffer d ! ?a ! 0 = 0" by blast+
      then have "t \<noteq> rowFirst d" "rowBuffer d ! t ! 0 = 0" unfolding e by blast+
      with less.prems(2) show False by blast
    qed
    have "steps_to ?n ?a t < steps_to ?n (rowNext d) t"
      using at t less.prems(1) by (auto simp: steps_to_def)
    moreover have "rowNext ?d2 < ?n" using t by auto
    moreover have "t = rowFirst ?d2 \<or> rowBuffer ?d2 ! t ! 0 \<noteq> 0"
      using less.prems(2) by simp
    ultimately have "findNextNonBlankRow cfg ?d2 \<noteq> None"
      using less.hyps [of ?d2] by simp
    with eq show ?thesis by simp
  qed
qed

lemma find_page_returns:
  assumes cfg: "SCROLLMODE cfg = 1" "MAX_CHARACTER_ROWS cfg \<le> ROW_INITIAL cfg"
  shows "rowNext d \<noteq> ROW_INITIAL cfg \<Longrightarrow> findNextNonBlankRow cfg d \<noteq> None"
proof (induction "MAX_CHARACTER_ROWS cfg - rowNext d" arbitrary: d rule: less_induct)
  case less
  let ?n = "MAX_CHARACTER_ROWS cfg"
  let ?d1 = "d\<lparr> rowNext := rowNext d + 1 \<rparr>"
  show ?case
  proof (cases "noMoreRowsToDisplay d \<or> rowNext d + 1 \<ge> ?n \<or> rowBuffer d ! (rowNext d + 1) ! 0 \<noteq> 0")
    case True
    then show ?thesis
      using cfg(1) less.prems by (subst findNextNonBlankRow.simps) (auto simp: Let_def)
  next
    case False
    then have eq: "findNextNonBlankRow cfg d = findNextNonBlankRow cfg ?d1"
      using cfg(1) less.prems by (subst findNextNonBlankRow.simps) (auto simp: Let_def)
    have "?n - rowNext ?d1 < ?n - rowNext d" using False by auto
    moreover have "rowNext ?d1 \<noteq> ROW_INITIAL cfg" using False cfg(2) by auto
    ultimately have "findNextNonBlankRow cfg ?d1 \<noteq> None"
      using less.hyps [of ?d1] by simp
    with eq show ?thesis by simp
  qed
qed

lemma find_returns:
  assumes rows: "0 < MAX_CHARACTER_ROWS cfg" "MAX_CHARACTER_ROWS cfg \<le> ROW_INITIAL cfg"
    and some: "SCROLLMODE cfg = 1 \<or> has_text cfg d"
  shows "findNextNonBlankRow cfg d \<noteq> None"
proof (cases "noMoreRowsToDisplay d")
  case True
  then show ?thesis by (subst findNextNonBlankRow.simps) simp
next
  case nm: False
  show ?thesis
  proof (cases "SCROLLMODE cfg = 1")
    case True
    show ?thesis
    proof (cases "rowNext d = ROW_INITIAL cfg")
      case False
      then show ?thesis by (rule find_page_returns [OF True rows(2)])
    next
      case init: True
      let ?d1 = "d\<lparr> rowNext := 0 \<rparr>"
      show ?thesis
      proof (cases "rowBuffer d ! 0 ! 0 \<noteq> 0")
        case True
        then show ?thesis
          using nm init rows \<open>SCROLLMODE cfg = 1\<close>
          by (subst findNextNonBlankRow.simps) (auto simp: Let_def)
      next
        case False
        then have "findNextNonBlankRow cfg d = findNextNonBlankRow cfg ?d1"
          using nm init rows \<open>SCROLLMODE cfg = 1\<close>
          by (subst findNextNonBlankRow.simps) (auto simp: Let_def)
        moreover have "findNextNonBlankRow cfg ?d1 \<noteq> None"
          using rows by (intro find_page_returns [OF True rows(2)]) simp
        ultimately show ?thesis by simp
      qed
    qed
  next
    case False
    with some have "has_text cfg d" by simp
    then obtain t where t: "t < MAX_CHARACTER_ROWS cfg" "rowBuffer d ! t ! 0 \<noteq> 0"
      using has_text_row by blast
    let ?n = "MAX_CHARACTER_ROWS cfg"
    let ?a = "if rowNext d = ROW_INITIAL cfg then 0
              else if rowNext d + 1 \<ge> ?n then 0 else rowNext d + 1"
    let ?d2 = "d\<lparr> rowNext := ?a \<rparr>"
    show ?thesis
    proof (cases "?a = rowFirst d \<or> rowBuffer d ! ?a ! 0 \<noteq> 0")
      case True
      then show ?thesis
        using nm False by (subst findNextNonBlankRow.simps) (auto simp: Let_def)
    next
      case c: False
      then have "findNextNonBlankRow cfg d = findNextNonBlankRow cfg ?d2"
        using nm False rows by (subst findNextNonBlankRow.simps) (auto simp: Let_def)
      moreover have "findNextNonBlankRow cfg ?d2 \<noteq> None"
        using rows t by (intro find_scan_returns [OF False rows(2) t(1)]) auto
      ultimately show ?thesis by simp
    qed
  qed
qed

subsection \<open>One turn of the loop\<close>

lemma body_position:
  "bufferPointer d = None \<Longrightarrow>
   loop2_body cfg now d =
     (case findNextNonBlankRow cfg (first_row cfg d) of
        None \<Rightarrow> None
      | Some (found, d2) \<Rightarrow> Some (False, stage cfg found d2))"
  by (simp add: loop2_body_def first_row_def stage_def Let_def split: option.split)

lemma body_write:
  "bufferPointer d = Some p \<Longrightarrow>
   loop2_body cfg now d =
     (if charIndex d + 1 \<ge> MAX_CHARACTER_COLS cfg then
        (if slot d + 1 \<ge> numCharacterRows d then
           (case (if SCROLLMODE cfg = 2 \<and> \<not> noMoreRowsToDisplay d
                  then findNextNonBlankRow cfg ((next_slot (put_char d p))\<lparr> rowNext := rowFirst d \<rparr>)
                  else Some (False, next_slot (put_char d p))) of
              None \<Rightarrow> None
            | Some (found, d5) \<Rightarrow> Some (True, end_pass cfg now d5))
         else Some (False, next_slot (put_char d p)))
      else Some (False, put_char d p))"
  unfolding loop2_body_def put_char_def next_slot_def end_pass_def Let_def
  by (simp cong: option.case_cong if_cong)

lemma calls_put_char:
  "calls (deviceDriver (put_char d p)) =
     calls (deviceDriver d) @ [writeNative (if buffer d ! p \<noteq> 0 then buffer d ! p else 32)]"
  by (simp add: put_char_def send_def)

lemma put_char_fields:
  "slot (put_char d p) = slot d" "rowBuffer (put_char d p) = rowBuffer d"
  "buffer (put_char d p) = buffer d" "numCharacterRows (put_char d p) = numCharacterRows d"
  "rowFirst (put_char d p) = rowFirst d" "rowNext (put_char d p) = rowNext d"
  "noMoreRowsToDisplay (put_char d p) = noMoreRowsToDisplay d"
  "charIndex (put_char d p) = charIndex d + 1"
  "bufferPointer d = Some p \<Longrightarrow>
     bufferPointer (put_char d p) = Some (if buffer d ! p \<noteq> 0 then p + 1 else p)"
  by (simp_all add: put_char_def)

lemma first_row_fields:
  "slot (first_row cfg d) = slot d" "rowBuffer (first_row cfg d) = rowBuffer d"
  "buffer (first_row cfg d) = buffer d" "numCharacterRows (first_row cfg d) = numCharacterRows d"
  "deviceDriver (first_row cfg d) = deviceDriver d" "rowNext (first_row cfg d) = rowNext d"
  "noMoreRowsToDisplay (first_row cfg d) = noMoreRowsToDisplay d"
  "bufferPointer (first_row cfg d) = bufferPointer d"
  by (simp_all add: first_row_def)

lemma end_pass_calls: "deviceDriver (end_pass cfg now d) = deviceDriver d"
  by (simp add: end_pass_def)

lemma loop2_body_calls:
  assumes "loop2_body cfg now d = Some (ret, d')"
  shows "calls (deviceDriver d') = calls (deviceDriver d) @ [setRowNative (slot d)] \<and> bufferPointer d = None \<or>
         (\<exists>ch. calls (deviceDriver d') = calls (deviceDriver d) @ [writeNative ch] \<and> bufferPointer d \<noteq> None)"
proof (cases "bufferPointer d")
  case None
  from assms obtain found d2 where f: "findNextNonBlankRow cfg (first_row cfg d) = Some (found, d2)"
    and d': "d' = stage cfg found d2"
    by (auto simp: body_position [OF None] split: option.splits)
  from find_fields(1,2) [OF f] have "deviceDriver d2 = deviceDriver d" "slot d2 = slot d"
    by (simp_all add: first_row_def)
  then show ?thesis
    using None d' by (simp add: stage_def send_def)
next
  case (Some p)
  have "deviceDriver d' = deviceDriver (put_char d p)"
  proof (cases "charIndex d + 1 \<ge> MAX_CHARACTER_COLS cfg \<and> slot d + 1 \<ge> numCharacterRows d")
    case True
    show ?thesis
    proof (cases "SCROLLMODE cfg = 2 \<and> \<not> noMoreRowsToDisplay d")
      case m: True
      from assms True m obtain found d5 where
        f: "findNextNonBlankRow cfg ((next_slot (put_char d p))\<lparr> rowNext := rowFirst d \<rparr>) = Some (found, d5)"
        and d': "d' = end_pass cfg now d5"
        by (auto simp: body_write [OF Some] split: option.splits)
      from find_fields(1) [OF f] d' show ?thesis
        by (simp add: end_pass_def next_slot_def)
    next
      case False
      with assms True show ?thesis
        by (auto simp: body_write [OF Some] end_pass_def next_slot_def)
    qed
  next
    case False
    with assms show ?thesis
      by (auto simp: body_write [OF Some] next_slot_def split: if_splits)
  qed
  with Some show ?thesis by (simp add: calls_put_char)
qed

lemma loop2_body_returns:
  assumes rows: "0 < MAX_CHARACTER_ROWS cfg" "MAX_CHARACTER_ROWS cfg \<le> ROW_INITIAL cfg"
    and some: "SCROLLMODE cfg = 1 \<or> has_text cfg d"
  shows "loop2_body cfg now d \<noteq> None"
proof (cases "bufferPointer d")
  case None
  have "SCROLLMODE cfg = 1 \<or> has_text cfg (first_row cfg d)"
    using some has_text_same [of "first_row cfg d" d cfg] by (simp add: first_row_fields)
  from find_returns [OF rows this] show ?thesis
    by (auto simp: body_position [OF None])
next
  case (Some p)
  let ?e = "(next_slot (put_char d p))\<lparr> rowNext := rowFirst d \<rparr>"
  have "rowBuffer ?e = rowBuffer d"
    by (simp add: next_slot_def put_char_fields)
  then have "SCROLLMODE cfg = 1 \<or> has_text cfg ?e"
    using some has_text_same [of ?e d cfg] by simp
  from find_returns [OF rows this] show ?thesis
    by (auto simp: body_write [OF Some])
qed

lemma forced_step:
  "loop2_body cfg now d = Some (False, d1) \<Longrightarrow> loop2_do cfg True now d = loop2_do cfg True now d1"
  by (subst loop2_do.simps) simp

lemma forced_return:
  "loop2_body cfg now d = Some (True, d1) \<Longrightarrow> loop2_do cfg True now d = Some d1"
  by (subst loop2_do.simps) simp

lemma loop2_forced: "loop2 cfg True now d = loop2_do cfg True now (restart cfg d)"
  by (simp add: loop2_def restart_def)

subsection \<open>The example display\<close>

lemma shaped_five_rows: "shaped example_config five_rows"
  by code_simp

lemma all_blank_blank_display: "all_blank example_config blank_display"
  by code_simp

lemma five_rows_facts:
  "numCharacterRows five_rows = 2" "numCharacterColumns five_rows = 16"
  "calls (deviceDriver five_rows) = []"
  "map (takeWhile (\<lambda>b. b \<noteq> 0)) (rowBuffer five_rows) =
     [[65], [66], [67], [68], [69]] @ replicate (MAX_CHARACTER_ROWS example_config - 5) []"
  by code_simp+

subsection \<open>Writing a row\<close>

lemma store_row:
  "r < length rb \<Longrightarrow> store rb r c v ! r = (rb ! r)[c := v]"
  "length (store rb r c v) = length rb"
  "list_all (\<lambda>row. length row = n) rb \<Longrightarrow> list_all (\<lambda>row. length row = n) (store rb r c v)"
  by (cases "r < length rb"; auto simp: store_def list_all_length nth_list_update)+

lemma Display_write_ok:
  assumes "shaped cfg d" and "hotRow d < MAX_CHARACTER_ROWS cfg" and "hotCol d < MAX_CHARACTER_COLS cfg"
  shows "fst (Display_write cfg b d) = 1"
    "shaped cfg (snd (Display_write cfg b d))"
    "hotRow (snd (Display_write cfg b d)) = hotRow d"
    "hotCol (snd (Display_write cfg b d)) = hotCol d + 1"
    "rowBuffer (snd (Display_write cfg b d)) ! hotRow d =
       (rowBuffer d ! hotRow d)[hotCol d := b, hotCol d + 1 := 0]"
  using assms
  by (simp_all add: Display_write_def Let_def shaped_def store_row)

lemma take_two_updates:
  "Suc k < length row \<Longrightarrow> take (Suc (Suc k)) (row[k := b, Suc k := z]) = take k row @ [b, z]"
  by (simp add: take_Suc_conv_app_nth nth_list_update)

lemma write_chars_row:
  "shaped cfg d \<Longrightarrow> hotRow d = r \<Longrightarrow> r < MAX_CHARACTER_ROWS cfg \<Longrightarrow>
   hotCol d + length bs \<le> MAX_CHARACTER_COLS cfg \<Longrightarrow>
   take (hotCol d + 1) (rowBuffer d ! r) = pre @ [0] \<Longrightarrow>
   fst (write_chars cfg bs d) = replicate (length bs) 1 \<and>
   take (hotCol d + length bs + 1) (rowBuffer (snd (write_chars cfg bs d)) ! r) = pre @ bs @ [0] \<and>
   hotRow (snd (write_chars cfg bs d)) = r \<and>
   hotCol (snd (write_chars cfg bs d)) = hotCol d + length bs \<and>
   shaped cfg (snd (write_chars cfg bs d))"
proof (induction bs arbitrary: d pre)
  case Nil
  then show ?case by simp
next
  case (Cons b bs)
  let ?d1 = "snd (Display_write cfg b d)"
  have col: "hotCol d < MAX_CHARACTER_COLS cfg"
    using Cons.prems(4) by simp
  have row: "hotRow d < MAX_CHARACTER_ROWS cfg"
    using Cons.prems(2,3) by simp
  note w = Display_write_ok [OF Cons.prems(1) row col, of b]
  have len: "length (rowBuffer d ! r) = MAX_CHARACTER_COLS cfg + 1"
    using Cons.prems(1,3) by (simp add: shaped_def list_all_length)
  have pre: "take (hotCol d) (rowBuffer d ! r) = pre"
    using Cons.prems(5) len col by (simp add: take_Suc_conv_app_nth)
  have "take (hotCol ?d1 + 1) (rowBuffer ?d1 ! r) = (pre @ [b]) @ [0]"
    using w(4,5) Cons.prems(2) len col pre by (simp add: take_two_updates)
  from Cons.IH [OF w(2) _ Cons.prems(3) _ this] w Cons.prems(2,4)
  show ?case by (simp add: split_beta)
qed

lemma row_text_stored:
  assumes "shaped cfg d" and "r < MAX_CHARACTER_ROWS cfg" and "length bs \<le> MAX_CHARACTER_COLS cfg"
  shows "\<exists>d1. Display_setRow cfg r d = Inr d1 \<and>
           fst (write_chars cfg bs d1) = replicate (length bs) 1 \<and>
           take (length bs + 1) (rowBuffer (snd (write_chars cfg bs d1)) ! r) = bs @ [0] \<and>
           hotCol (snd (write_chars cfg bs d1)) = length bs"
proof -
  let ?d1 = "d\<lparr> hotRow := r, hotCol := 0, rowBuffer := store (rowBuffer d) r 0 0 \<rparr>"
  have sr: "Display_setRow cfg r d = Inr ?d1"
    using assms(2) by (simp add: Display_setRow_def Let_def)
  have sh: "shaped cfg ?d1"
    using assms(1) by (simp add: shaped_def store_row)
  have "length (rowBuffer d ! r) = MAX_CHARACTER_COLS cfg + 1"
    using assms(1,2) by (simp add: shaped_def list_all_length)
  then have hd: "take (hotCol ?d1 + 1) (rowBuffer ?d1 ! r) = [] @ [0]"
    using assms(1,2) by (cases "rowBuffer d ! r") (simp_all add: shaped_def store_row)
  from write_chars_row [OF sh _ assms(2) _ hd, of bs] assms(3) sr show ?thesis
    by simp
qed

lemma write_terminates_row:
  assumes "shaped cfg d" and "fst (Display_write cfg b d) = 1"
  shows "rowBuffer (snd (Display_write cfg b d)) ! hotRow (snd (Display_write cfg b d))
           ! hotCol (snd (Display_write cfg b d)) = 0 \<and>
         rowBuffer (snd (Display_write cfg b d)) ! hotRow (snd (Display_write cfg b d))
           ! (hotCol (snd (Display_write cfg b d)) - 1) = b"
proof -
  from assms(2) have ok: "hotRow d < MAX_CHARACTER_ROWS cfg" "hotCol d < MAX_CHARACTER_COLS cfg"
    by (auto simp: Display_write_def split: if_splits)
  note w = Display_write_ok [OF assms(1) ok, of b]
  have "length (rowBuffer d ! hotRow d) = MAX_CHARACTER_COLS cfg + 1"
    using assms(1) ok by (simp add: shaped_def list_all_length)
  then show ?thesis
    using w(3,4,5) ok by (simp add: nth_list_update)
qed

text \<open>
  C7.  For a row \<open>r\<close> below \<open>MAX_CHARACTER_ROWS\<close> and bytes \<open>b1 .. bk\<close> with
  \<open>k \<le> MAX_CHARACTER_COLS\<close>: \<open>_setRow(r)\<close> followed by \<open>_write(b1) .. _write(bk)\<close>
  succeeds every time and leaves row \<open>r\<close> starting with \<open>b1 .. bk\<close> and a zero byte right
  after them.  And every \<open>_write\<close> that succeeds, in whatever state, leaves a zero byte
  right after the byte it has stored.
\<close>

theorem row_holds_written_text:
  assumes "shaped cfg d" and "r < MAX_CHARACTER_ROWS cfg" and "length bs \<le> MAX_CHARACTER_COLS cfg"
  shows "(\<exists>d1. Display_setRow cfg r d = Inr d1 \<and>
            fst (write_chars cfg bs d1) = replicate (length bs) 1 \<and>
            take (length bs + 1) (rowBuffer (snd (write_chars cfg bs d1)) ! r) = bs @ [0] \<and>
            hotCol (snd (write_chars cfg bs d1)) = length bs) \<and>
         (fst (Display_write cfg b d) = 1 \<longrightarrow>
            rowBuffer (snd (Display_write cfg b d)) ! hotRow (snd (Display_write cfg b d))
              ! hotCol (snd (Display_write cfg b d)) = 0 \<and>
            rowBuffer (snd (Display_write cfg b d)) ! hotRow (snd (Display_write cfg b d))
              ! (hotCol (snd (Display_write cfg b d)) - 1) = b)"
  using row_text_stored [OF assms] write_terminates_row [OF assms(1)] by blast

text \<open>
  Row 2 set to \<open>Hi\<close>, and one more character appended to the row that is hot.
\<close>

theorem row_holds_written_text_witness:
  "(\<exists>d1. Display_setRow example_config 2 five_rows = Inr d1 \<and>
      fst (write_chars example_config [72, 105] d1) = replicate (length [72, 105 :: byte]) 1 \<and>
      take (length [72, 105 :: byte] + 1)
        (rowBuffer (snd (write_chars example_config [72, 105] d1)) ! 2) = [72, 105] @ [0] \<and>
      hotCol (snd (write_chars example_config [72, 105] d1)) = length [72, 105 :: byte]) \<and>
   fst (Display_write example_config 33 five_rows) = 1 \<and>
   rowBuffer (snd (Display_write example_config 33 five_rows))
     ! hotRow (snd (Display_write example_config 33 five_rows))
     ! hotCol (snd (Display_write example_config 33 five_rows)) = 0 \<and>
   rowBuffer (snd (Display_write example_config 33 five_rows))
     ! hotRow (snd (Display_write example_config 33 five_rows))
     ! (hotCol (snd (Display_write example_config 33 five_rows)) - 1) = 33"
proof -
  have h: "2 < MAX_CHARACTER_ROWS example_config"
    "length [72, 105 :: byte] \<le> MAX_CHARACTER_COLS example_config"
    by (simp_all add: example_config_def)
  have w: "fst (Display_write example_config 33 five_rows) = 1"
    by code_simp
  from row_holds_written_text [OF shaped_five_rows h, of 33] w show ?thesis
    by blast
qed

text \<open>
  C3 says that \<open>_setRow\<close> with a row index at or beyond \<open>MAX_CHARACTER_ROWS\<close> changes
  nothing.  The code has no such test: it stores to \<open>rowBuffer[line][0]\<close>, which for such
  an index is outside the array.
\<close>

theorem setRow_out_of_range:
  "MAX_CHARACTER_ROWS cfg \<le> r \<Longrightarrow> Display_setRow cfg r d = Inl (OutOfBoundsStore r 0)"
  by (simp add: Display_setRow_def)

text \<open>
  The failing input of C3: row 8 of a display of eight rows.
\<close>

theorem setRow_out_of_range_witness:
  "Display_setRow example_config 8 blank_display = Inl (OutOfBoundsStore 8 0)"
  using setRow_out_of_range [of example_config 8 blank_display]
  by (simp add: example_config_def)

subsection \<open>One operation per call\<close>

lemma loop2_step_calls:
  assumes "loop2 cfg False now d = Some d'"
  shows "(if now - lastScrollTime d < DISPLAY_SCROLL_TIME cfg then d' = d
          else if bufferPointer d = None
            then calls (deviceDriver d') = calls (deviceDriver d) @ [setRowNative (slot d)]
            else (\<exists>ch. calls (deviceDriver d') = calls (deviceDriver d) @ [writeNative ch])) \<and>
         length (calls (deviceDriver d')) \<le> length (calls (deviceDriver d)) + 1"
proof (cases "now - lastScrollTime d < DISPLAY_SCROLL_TIME cfg")
  case True
  with assms show ?thesis by (simp add: loop2_def)
next
  case False
  with assms have "loop2_do cfg False now d = Some d'" by (simp add: loop2_def)
  moreover have "loop2_do cfg False now d =
      (case loop2_body cfg now d of None \<Rightarrow> None | Some (returned, d1) \<Rightarrow> Some d1)"
    by (subst loop2_do.simps) (simp split: option.split)
  ultimately obtain ret where "loop2_body cfg now d = Some (ret, d')"
    by (cases "loop2_body cfg now d") auto
  from loop2_body_calls [OF this] False show ?thesis by auto
qed

lemma loop2_returns:
  assumes "0 < MAX_CHARACTER_ROWS cfg" and "MAX_CHARACTER_ROWS cfg \<le> ROW_INITIAL cfg"
    and "SCROLLMODE cfg = 1 \<or> has_text cfg d"
  shows "loop2 cfg False now d \<noteq> None"
proof -
  have "loop2_do cfg False now d =
      (case loop2_body cfg now d of None \<Rightarrow> None | Some (returned, d1) \<Rightarrow> Some d1)"
    by (subst loop2_do.simps) (simp split: option.split)
  with loop2_body_returns [OF assms, of now] show ?thesis
    by (auto simp: loop2_def)
qed

text \<open>
  C9.  A call \<open>loop2(false)\<close> that returns has sent the device nothing when it is still
  inside the scroll interval (the state is unchanged); otherwise exactly one
  \<open>setRowNative\<close> for the current slot when no line is staged, and exactly one
  \<open>writeNative\<close> when one is.  In every case at most one operation.  And the call
  does return when \<open>ROW_INITIAL\<close> is no row index and either \<open>SCROLLMODE\<close> is 1 or
  some row has text.
\<close>

theorem loop2_one_operation:
  "(0 < MAX_CHARACTER_ROWS cfg \<and> MAX_CHARACTER_ROWS cfg \<le> ROW_INITIAL cfg \<and>
    (SCROLLMODE cfg = 1 \<or> has_text cfg d) \<longrightarrow> loop2 cfg False now d \<noteq> None) \<and>
   (\<forall>d'. loop2 cfg False now d = Some d' \<longrightarrow>
      (if now - lastScrollTime d < DISPLAY_SCROLL_TIME cfg then d' = d
       else if bufferPointer d = None
         then calls (deviceDriver d') = calls (deviceDriver d) @ [setRowNative (slot d)]
         else (\<exists>ch. calls (deviceDriver d') = calls (deviceDriver d) @ [writeNative ch])) \<and>
      length (calls (deviceDriver d')) \<le> length (calls (deviceDriver d)) + 1)"
  using loop2_returns [of cfg d now] loop2_step_calls [of cfg now d] by blast

text \<open>
  The first call after the scroll interval, on the example display: one
  \<open>setRowNative\<close>.
\<close>

theorem loop2_one_operation_witness:
  "loop2 example_config False 3000 five_rows \<noteq> None \<and>
   (\<exists>d'. loop2 example_config False 3000 five_rows = Some d' \<and>
      calls (deviceDriver d') = calls (deviceDriver five_rows) @ [setRowNative (slot five_rows)] \<and>
      length (calls (deviceDriver d')) \<le> length (calls (deviceDriver five_rows)) + 1)"
proof -
  have c: "0 < MAX_CHARACTER_ROWS example_config"
    "MAX_CHARACTER_ROWS example_config \<le> ROW_INITIAL example_config"
    by (simp_all add: example_config_def)
  have t: "has_text example_config five_rows"
    by code_simp
  have late: "\<not> 3000 - lastScrollTime five_rows < DISPLAY_SCROLL_TIME example_config"
    by code_simp
  have bp: "bufferPointer five_rows = None"
    by code_simp
  note inst = loop2_one_operation [of example_config five_rows 3000]
  from inst c t obtain d' where run: "loop2 example_config False 3000 five_rows = Some d'"
    by auto
  with inst late bp show ?thesis
    by auto
qed

subsection \<open>A display with no text\<close>

lemma find_blank_diverges_aux:
  assumes "findNextNonBlankRow cfg d = Some r"
  shows "\<not> (SCROLLMODE cfg \<noteq> 1 \<and> 0 < MAX_CHARACTER_ROWS cfg \<and> all_blank cfg d \<and>
     \<not> noMoreRowsToDisplay d \<and> MAX_CHARACTER_ROWS cfg \<le> rowFirst d)"
  apply (rule findNextNonBlankRow.raw_induct
    [where P = "\<lambda>cfg d r. \<not> (SCROLLMODE cfg \<noteq> 1 \<and> 0 < MAX_CHARACTER_ROWS cfg \<and> all_blank cfg d \<and>
     \<not> noMoreRowsToDisplay d \<and> MAX_CHARACTER_ROWS cfg \<le> rowFirst d)",
      OF _ assms])
  subgoal premises prems for f cfg d r
  proof
    assume a: "SCROLLMODE cfg \<noteq> 1 \<and> 0 < MAX_CHARACTER_ROWS cfg \<and> all_blank cfg d \<and>
     \<not> noMoreRowsToDisplay d \<and> MAX_CHARACTER_ROWS cfg \<le> rowFirst d"
    define d1 where "d1 = (if rowNext d = ROW_INITIAL cfg then d\<lparr> rowNext := 0 \<rparr>
                  else d\<lparr> rowNext := rowNext d + 1 \<rparr>)"
    define d2 where "d2 = (if rowNext d1 \<ge> MAX_CHARACTER_ROWS cfg then d1\<lparr> rowNext := 0 \<rparr> else d1)"
    have d2: "rowNext d2 < MAX_CHARACTER_ROWS cfg" "rowFirst d2 = rowFirst d"
      "rowBuffer d2 = rowBuffer d" "noMoreRowsToDisplay d2 = noMoreRowsToDisplay d"
      using a by (auto simp: d1_def d2_def)
    have blank: "rowBuffer d2 ! rowNext d2 ! 0 = 0"
      using a d2 by (simp add: all_blank_def list_all_length)
    have "f cfg d2 = Some r"
      using prems(2) a d2(1,2) blank
      by (simp add: Let_def d1_def [symmetric] d2_def [symmetric])
    from prems(1) [OF this] show False
      using a d2 by (simp add: all_blank_def)
  qed
  done

lemma find_blank_diverges:
  "SCROLLMODE cfg \<noteq> 1 \<Longrightarrow> 0 < MAX_CHARACTER_ROWS cfg \<Longrightarrow> all_blank cfg d \<Longrightarrow>
     \<not> noMoreRowsToDisplay d \<Longrightarrow> MAX_CHARACTER_ROWS cfg \<le> rowFirst d \<Longrightarrow>
   findNextNonBlankRow cfg d = None"
  using find_blank_diverges_aux [of cfg d] by (cases "findNextNonBlankRow cfg d") auto

text \<open>
  C4 says that \<open>loop2(true)\<close> terminates in every state, also when every row is blank.
  With \<open>SCROLLMODE\<close> other than 1 it does not: the forced call sets \<open>rowFirst\<close> and
  \<open>rowNext\<close> to \<open>ROW_INITIAL\<close>, which is no row index, so the search of
  \<open>findNextNonBlankRow\<close> runs through the rows for ever, meeting neither \<open>rowFirst\<close>
  nor a row with text.
\<close>

theorem forced_blank_never_returns:
  assumes "SCROLLMODE cfg \<noteq> 1" and "0 < MAX_CHARACTER_ROWS cfg"
    and "MAX_CHARACTER_ROWS cfg \<le> ROW_INITIAL cfg" and "all_blank cfg d"
  shows "loop2 cfg True now d = None"
proof -
  let ?d0 = "d\<lparr> rowFirst := ROW_INITIAL cfg, rowNext := ROW_INITIAL cfg, bufferPointer := None,
              noMoreRowsToDisplay := False, slot := 0 \<rparr>"
  have "findNextNonBlankRow cfg (?d0\<lparr> rowFirst := rowNext ?d0 \<rparr>) = None"
    using assms by (intro find_blank_diverges) (simp_all add: all_blank_def)
  then have "loop2_body cfg now ?d0 = None"
    by (simp add: loop2_body_def)
  then have "loop2_do cfg True now ?d0 = None"
    by (subst loop2_do.simps) simp
  then show ?thesis by (simp add: loop2_def)
qed

text \<open>
  The failing input of C4: the display as the constructor leaves it, refreshed at once.
\<close>

theorem forced_blank_never_returns_witness:
  "loop2 example_config True 0 blank_display = None"
  using forced_blank_never_returns [OF _ _ _ all_blank_blank_display, of 0]
  by (simp add: example_config_def)

subsection \<open>A forced pass, slot by slot\<close>

lemma length_pad: "length (pad cfg l) = MAX_CHARACTER_COLS cfg"
  by (simp add: pad_def Let_def)

lemma slot_chars_drop:
  "p + k \<le> length b \<Longrightarrow>
   slot_chars b p k =
     take k (takeWhile (\<lambda>x. x \<noteq> 0) (drop p b)) @
     replicate (k - length (takeWhile (\<lambda>x. x \<noteq> 0) (drop p b))) 32"
proof (induction k arbitrary: p)
  case 0
  then show ?case by simp
next
  case (Suc k)
  then have p: "p < length b" by simp
  then have dr: "drop p b = b ! p # drop (Suc p) b"
    by (simp add: Cons_nth_drop_Suc)
  show ?case
  proof (cases "b ! p = 0")
    case True
    have "slot_chars b p k = replicate k 32"
      using Suc.IH [of p] Suc.prems dr True by simp
    then show ?thesis using dr True by simp
  next
    case False
    then show ?thesis
      using Suc.IH [of "Suc p"] Suc.prems dr by simp
  qed
qed

lemma slot_chars_pad:
  "length b = MAX_CHARACTER_COLS cfg + 1 \<Longrightarrow> slot_chars b 0 (MAX_CHARACTER_COLS cfg) = pad cfg b"
  using slot_chars_drop [of 0 "MAX_CHARACTER_COLS cfg" b] by (simp add: pad_def Let_def)

lemma put_chars_fields:
  assumes "bufferPointer d = Some p"
  shows "slot (put_chars k d) = slot d \<and> rowBuffer (put_chars k d) = rowBuffer d \<and>
    buffer (put_chars k d) = buffer d \<and> numCharacterRows (put_chars k d) = numCharacterRows d \<and>
    rowFirst (put_chars k d) = rowFirst d \<and> rowNext (put_chars k d) = rowNext d \<and>
    noMoreRowsToDisplay (put_chars k d) = noMoreRowsToDisplay d \<and>
    charIndex (put_chars k d) = charIndex d + k \<and>
    bufferPointer (put_chars k d) \<noteq> None \<and>
    calls (deviceDriver (put_chars k d)) =
      calls (deviceDriver d) @ map writeNative (slot_chars (buffer d) p k)"
  using assms
proof (induction k arbitrary: d p)
  case 0
  then show ?case by simp
next
  case (Suc k)
  let ?d1 = "put_char d p"
  have bp: "bufferPointer ?d1 = Some (if buffer d ! p \<noteq> 0 then p + 1 else p)"
    using Suc.prems by (rule put_char_fields(9))
  from Suc.IH [OF bp] show ?case
    using Suc.prems by (simp add: put_char_fields(1-8) calls_put_char)
qed

lemma put_chars_add:
  "bufferPointer d \<noteq> None \<Longrightarrow> put_chars (j + k) d = put_chars k (put_chars j d)"
proof (induction j arbitrary: d)
  case 0
  then show ?case by simp
next
  case (Suc j)
  then obtain p where p: "bufferPointer d = Some p" by auto
  have "bufferPointer (put_char d p) \<noteq> None"
    using put_char_fields(9) [OF p] by simp
  from Suc.IH [OF this] show ?case using p by simp
qed

lemma forced_writes:
  "bufferPointer d = Some p \<Longrightarrow> charIndex d + k < MAX_CHARACTER_COLS cfg \<Longrightarrow>
   loop2_do cfg True now d = loop2_do cfg True now (put_chars k d)"
proof (induction k arbitrary: d p)
  case 0
  then show ?case by simp
next
  case (Suc k)
  let ?d1 = "put_char d p"
  have "loop2_body cfg now d = Some (False, ?d1)"
    using Suc.prems by (simp add: body_write)
  then have "loop2_do cfg True now d = loop2_do cfg True now ?d1"
    by (rule forced_step)
  also have "\<dots> = loop2_do cfg True now (put_chars k ?d1)"
    using Suc.prems
    by (intro Suc.IH [OF put_char_fields(9) [OF Suc.prems(1)]]) (simp add: put_char_fields)
  finally show ?case using Suc.prems by simp
qed

lemma copy_row_prefix:
  "m \<le> length buf \<Longrightarrow> m \<le> length row \<Longrightarrow>
   fold (\<lambda>i buf. buf[i := row ! i]) [0 ..< m] buf = take m row @ drop m buf"
proof (induction m)
  case 0
  then show ?case by simp
next
  case (Suc m)
  then have "fold (\<lambda>i buf. buf[i := row ! i]) [0 ..< Suc m] buf =
      (take m row @ drop m buf)[m := row ! m]"
    by simp
  also have "\<dots> = take m row @ (drop m buf)[0 := row ! m]"
    using Suc.prems by (simp add: list_update_append)
  also have "(drop m buf)[0 := row ! m] = row ! m # drop (Suc m) buf"
    using Suc.prems by (simp add: Cons_nth_drop_Suc [symmetric])
  also have "take m row @ row ! m # drop (Suc m) buf = take (Suc m) row @ drop (Suc m) buf"
    using Suc.prems by (simp add: take_Suc_conv_app_nth)
  finally show ?case .
qed

lemma copy_row:
  "length buf = n \<Longrightarrow> length row = n \<Longrightarrow> fold (\<lambda>i buf. buf[i := row ! i]) [0 ..< n] buf = row"
  using copy_row_prefix [of n buf row] by simp

lemma length_copy: "length (fold (\<lambda>i buf. buf[i := f i]) is buf) = length buf"
  by (induction "is" arbitrary: buf) simp_all

lemma stage_fields:
  "slot (stage cfg found d) = slot d" "rowBuffer (stage cfg found d) = rowBuffer d"
  "numCharacterRows (stage cfg found d) = numCharacterRows d"
  "rowFirst (stage cfg found d) = rowFirst d" "rowNext (stage cfg found d) = rowNext d"
  "noMoreRowsToDisplay (stage cfg found d) = noMoreRowsToDisplay d"
  "charIndex (stage cfg found d) = 0" "bufferPointer (stage cfg found d) = Some 0"
  "calls (deviceDriver (stage cfg found d)) = calls (deviceDriver d) @ [setRowNative (slot d)]"
  "length (buffer (stage cfg found d)) = length (buffer d)"
  by (simp_all add: stage_def send_def length_copy del: upt_Suc)

lemma stage_found:
  "shaped cfg d \<Longrightarrow> rowNext d < MAX_CHARACTER_ROWS cfg \<Longrightarrow>
   buffer (stage cfg True d) = rowBuffer d ! rowNext d"
  by (simp add: stage_def shaped_def list_all_length copy_row del: upt_Suc)

lemma after_slot_fields:
  assumes "length (buffer d2) = MAX_CHARACTER_COLS cfg + 1"
  shows "slot (after_slot cfg found d2) = slot d2 + 1"
    "bufferPointer (after_slot cfg found d2) = None"
    "rowBuffer (after_slot cfg found d2) = rowBuffer d2"
    "numCharacterRows (after_slot cfg found d2) = numCharacterRows d2"
    "rowFirst (after_slot cfg found d2) = rowFirst d2"
    "rowNext (after_slot cfg found d2) = rowNext d2"
    "noMoreRowsToDisplay (after_slot cfg found d2) = noMoreRowsToDisplay d2"
    "buffer (after_slot cfg found d2) = buffer (stage cfg found d2)"
    "calls (deviceDriver (after_slot cfg found d2)) =
       calls (deviceDriver d2) @ slot_calls cfg (slot d2) (buffer (stage cfg found d2))"
proof -
  let ?w0 = "stage cfg found d2"
  note pc = put_chars_fields [OF stage_fields(8), of "MAX_CHARACTER_COLS cfg" cfg found d2]
  have len: "length (buffer ?w0) = MAX_CHARACTER_COLS cfg + 1"
    using assms by (simp add: stage_fields)
  show "slot (after_slot cfg found d2) = slot d2 + 1"
    using pc by (simp add: after_slot_def next_slot_def stage_fields)
  show "bufferPointer (after_slot cfg found d2) = None"
    by (simp add: after_slot_def next_slot_def)
  show "rowBuffer (after_slot cfg found d2) = rowBuffer d2"
    using pc by (simp add: after_slot_def next_slot_def stage_fields)
  show "numCharacterRows (after_slot cfg found d2) = numCharacterRows d2"
    using pc by (simp add: after_slot_def next_slot_def stage_fields)
  show "rowFirst (after_slot cfg found d2) = rowFirst d2"
    using pc by (simp add: after_slot_def next_slot_def stage_fields)
  show "rowNext (after_slot cfg found d2) = rowNext d2"
    using pc by (simp add: after_slot_def next_slot_def stage_fields)
  show "noMoreRowsToDisplay (after_slot cfg found d2) = noMoreRowsToDisplay d2"
    using pc by (simp add: after_slot_def next_slot_def stage_fields)
  show "buffer (after_slot cfg found d2) = buffer (stage cfg found d2)"
    using pc by (simp add: after_slot_def next_slot_def)
  show "calls (deviceDriver (after_slot cfg found d2)) =
       calls (deviceDriver d2) @ slot_calls cfg (slot d2) (buffer (stage cfg found d2))"
    using pc slot_chars_pad [OF len]
    by (simp add: after_slot_def next_slot_def stage_fields slot_calls_def)
qed

lemma forced_slot:
  assumes "bufferPointer d = None" and "0 < MAX_CHARACTER_COLS cfg"
    and "findNextNonBlankRow cfg (first_row cfg d) = Some (found, d2)"
  shows "loop2_do cfg True now d =
     (if slot d + 1 \<ge> numCharacterRows d then
        (case (if SCROLLMODE cfg = 2 \<and> \<not> noMoreRowsToDisplay d2
               then findNextNonBlankRow cfg ((after_slot cfg found d2)\<lparr> rowNext := rowFirst d2 \<rparr>)
               else Some (False, after_slot cfg found d2)) of
           None \<Rightarrow> None
         | Some (f, d5) \<Rightarrow> Some (end_pass cfg now d5))
      else loop2_do cfg True now (after_slot cfg found d2))"
proof -
  let ?n = "MAX_CHARACTER_COLS cfg"
  let ?w0 = "stage cfg found d2"
  let ?w1 = "put_chars (?n - 1) ?w0"
  note f2 = find_fields [OF assms(3)]
  have "loop2_body cfg now d = Some (False, ?w0)"
    using assms(1,3) by (simp add: body_position)
  then have s1: "loop2_do cfg True now d = loop2_do cfg True now ?w0"
    by (rule forced_step)
  have s2: "loop2_do cfg True now ?w0 = loop2_do cfg True now ?w1"
    using assms(2) by (intro forced_writes [OF stage_fields(8)]) (simp add: stage_fields)
  note pc = put_chars_fields [OF stage_fields(8), of "?n - 1" cfg found d2]
  from pc obtain p1 where p1: "bufferPointer ?w1 = Some p1" by auto
  have "put_chars (?n - 1 + 1) ?w0 = put_chars 1 ?w1"
    by (rule put_chars_add) (simp add: stage_fields)
  then have last: "put_char ?w1 p1 = put_chars ?n ?w0"
    using assms(2) p1 by simp
  have ci: "charIndex ?w1 + 1 \<ge> ?n"
    using pc by (simp add: stage_fields)
  have sl: "slot ?w1 = slot d" "numCharacterRows ?w1 = numCharacterRows d"
    "noMoreRowsToDisplay ?w1 = noMoreRowsToDisplay d2" "rowFirst ?w1 = rowFirst d2"
    using pc f2 by (simp_all add: stage_fields first_row_def)
  show ?thesis
  proof (cases "slot d + 1 \<ge> numCharacterRows d")
    case False
    then have "loop2_body cfg now ?w1 = Some (False, after_slot cfg found d2)"
      using ci sl unfolding body_write [OF p1] last after_slot_def by simp
    then have "loop2_do cfg True now ?w1 = loop2_do cfg True now (after_slot cfg found d2)"
      by (rule forced_step)
    with s1 s2 False show ?thesis by simp
  next
    case True
    let ?r = "if SCROLLMODE cfg = 2 \<and> \<not> noMoreRowsToDisplay d2
               then findNextNonBlankRow cfg ((after_slot cfg found d2)\<lparr> rowNext := rowFirst d2 \<rparr>)
               else Some (False, after_slot cfg found d2)"
    have b: "loop2_body cfg now ?w1 =
        (case ?r of None \<Rightarrow> None | Some (f, d5) \<Rightarrow> Some (True, end_pass cfg now d5))"
      using True ci sl unfolding body_write [OF p1] last after_slot_def
      by (simp cong: option.case_cong)
    have "loop2_do cfg True now ?w1 =
        (case ?r of None \<Rightarrow> None | Some (f, d5) \<Rightarrow> Some (end_pass cfg now d5))"
    proof (cases ?r)
      case None
      with b show ?thesis by (subst loop2_do.simps) simp
    next
      case (Some a)
      obtain f d5 where "a = (f, d5)" by (cases a)
      with b Some forced_return [of cfg now ?w1 "end_pass cfg now d5"] show ?thesis by simp
    qed
    with s1 s2 True show ?thesis by simp
  qed
qed

lemma write_counts_writes: "write_counts (map writeNative xs @ cs) = write_counts cs"
  by (induction xs) simp_all

lemma takeWhile_writes:
  "cs = [] \<or> \<not> is_write (hd cs) \<Longrightarrow> takeWhile is_write (map writeNative xs @ cs) = map writeNative xs"
  by (induction xs) (cases cs; auto)+

lemma slots_start: 
  "concat (map2 (slot_calls cfg) ss ls) = [] \<or> \<not> is_write (hd (concat (map2 (slot_calls cfg) ss ls)))"
  by (cases ss; cases ls) (simp_all add: slot_calls_def)

lemma write_counts_slots:
  "write_counts (concat (map2 (slot_calls cfg) ss ls)) =
     replicate (min (length ss) (length ls)) (MAX_CHARACTER_COLS cfg)"
proof (induction ss arbitrary: ls)
  case Nil
  then show ?case by simp
next
  case (Cons s ss)
  show ?case
  proof (cases ls)
    case Nil
    then show ?thesis by simp
  next
    case (Cons l ls')
    have "write_counts (concat (map2 (slot_calls cfg) (s # ss) (l # ls'))) =
        length (takeWhile is_write (map writeNative (pad cfg l) @ concat (map2 (slot_calls cfg) ss ls'))) #
        write_counts (map writeNative (pad cfg l) @ concat (map2 (slot_calls cfg) ss ls'))"
      by (simp add: slot_calls_def)
    also have "\<dots> = MAX_CHARACTER_COLS cfg # write_counts (concat (map2 (slot_calls cfg) ss ls'))"
      by (simp only: takeWhile_writes [OF slots_start] write_counts_writes length_map length_pad)
    finally show ?thesis
      using Cons.IH [of ls'] Cons by simp
  qed
qed

lemma forced_from_slot_returns:
  assumes rows: "0 < MAX_CHARACTER_ROWS cfg" "MAX_CHARACTER_ROWS cfg \<le> ROW_INITIAL cfg"
    and cols: "0 < MAX_CHARACTER_COLS cfg"
  shows "SCROLLMODE cfg = 1 \<or> has_text cfg d \<Longrightarrow>
    length (buffer d) = MAX_CHARACTER_COLS cfg + 1 \<Longrightarrow> bufferPointer d = None \<Longrightarrow>
    n = numCharacterRows d - slot d - 1 \<Longrightarrow> loop2_do cfg True now d \<noteq> None"
proof (induction n arbitrary: d)
  case 0
  have "SCROLLMODE cfg = 1 \<or> has_text cfg (first_row cfg d)"
    using 0(1) has_text_same [of "first_row cfg d" d cfg] by (simp add: first_row_fields)
  from find_returns [OF rows this] obtain found d2 where
    f: "findNextNonBlankRow cfg (first_row cfg d) = Some (found, d2)" by auto
  note ff = find_fields [OF f]
  have len2: "length (buffer d2) = MAX_CHARACTER_COLS cfg + 1"
    using ff 0(2) by (simp add: first_row_fields)
  note af = after_slot_fields [OF len2, of found]
  let ?e = "(after_slot cfg found d2)\<lparr> rowNext := rowFirst d2 \<rparr>"
  have "rowBuffer ?e = rowBuffer d"
    using af ff by (simp add: first_row_fields)
  then have "SCROLLMODE cfg = 1 \<or> has_text cfg ?e"
    using 0(1) has_text_same [of ?e d cfg] by simp
  from find_returns [OF rows this] obtain g d5 where
    e: "findNextNonBlankRow cfg ?e = Some (g, d5)" by auto
  have last: "slot d + 1 \<ge> numCharacterRows d" using 0(4) by simp
  show ?case
    using last e by (simp add: forced_slot [OF 0(3) cols f])
next
  case (Suc n)
  have "SCROLLMODE cfg = 1 \<or> has_text cfg (first_row cfg d)"
    using Suc.prems(1) has_text_same [of "first_row cfg d" d cfg] by (simp add: first_row_fields)
  from find_returns [OF rows this] obtain found d2 where
    f: "findNextNonBlankRow cfg (first_row cfg d) = Some (found, d2)" by auto
  note ff = find_fields [OF f]
  have len2: "length (buffer d2) = MAX_CHARACTER_COLS cfg + 1"
    using ff Suc.prems(2) by (simp add: first_row_fields)
  note af = after_slot_fields [OF len2, of found]
  let ?w = "after_slot cfg found d2"
  have more: "\<not> slot d + 1 \<ge> numCharacterRows d" using Suc.prems(4) by simp
  have "rowBuffer ?w = rowBuffer d"
    using af ff by (simp add: first_row_fields)
  then have some: "SCROLLMODE cfg = 1 \<or> has_text cfg ?w"
    using Suc.prems(1) has_text_same [of ?w d cfg] by simp
  have lenw: "length (buffer ?w) = MAX_CHARACTER_COLS cfg + 1"
    using af(8) len2 by (simp add: stage_fields)
  have n: "n = numCharacterRows ?w - slot ?w - 1"
    using Suc.prems(4) af ff by (simp add: first_row_fields)
  from Suc.IH [OF some lenw af(2) n] more show ?case
    by (simp add: forced_slot [OF Suc.prems(3) cols f])
qed

lemma forced_pass_returns:
  assumes "0 < MAX_CHARACTER_ROWS cfg" and "MAX_CHARACTER_ROWS cfg \<le> ROW_INITIAL cfg"
    and "0 < MAX_CHARACTER_COLS cfg" and "shaped cfg d"
    and "SCROLLMODE cfg = 1 \<or> has_text cfg d"
  shows "loop2 cfg True now d \<noteq> None"
proof -
  have "SCROLLMODE cfg = 1 \<or> has_text cfg (restart cfg d)"
    using assms(5) has_text_same [of "restart cfg d" d cfg] by (simp add: restart_def)
  moreover have "length (buffer (restart cfg d)) = MAX_CHARACTER_COLS cfg + 1"
    using assms(4) by (simp add: shaped_def restart_def)
  ultimately have "loop2_do cfg True now (restart cfg d) \<noteq> None"
    by (rule forced_from_slot_returns [OF assms(1-3)]) (simp_all add: restart_def)
  then show ?thesis by (simp add: loop2_forced)
qed

lemma forced_pass_two_rows:
  assumes sh: "shaped cfg d" and cols: "0 < MAX_CHARACTER_COLS cfg"
    and rows: "1 < MAX_CHARACTER_ROWS cfg" and init: "MAX_CHARACTER_ROWS cfg \<le> ROW_INITIAL cfg"
    and two: "numCharacterRows d = 2"
    and r0: "rowBuffer d ! 0 ! 0 \<noteq> 0" and r1: "rowBuffer d ! 1 ! 0 \<noteq> 0"
  shows "\<exists>d'. loop2 cfg True now d = Some d' \<and>
     calls (deviceDriver d') =
       calls (deviceDriver d) @ slot_calls cfg 0 (rowBuffer d ! 0) @ slot_calls cfg 1 (rowBuffer d ! 1) \<and>
     rowBuffer d' = rowBuffer d \<and> numCharacterRows d' = numCharacterRows d \<and> shaped cfg d'"
proof -
  let ?d0 = "restart cfg d"
  have len: "length (buffer d) = MAX_CHARACTER_COLS cfg + 1"
    using sh by (simp add: shaped_def)
  \<comment> \<open>slot 0\<close>
  let ?d2 = "(first_row cfg ?d0)\<lparr> rowNext := 0 \<rparr>"
  have f0: "findNextNonBlankRow cfg (first_row cfg ?d0) = Some (True, ?d2)"
    using rows init r0 by (intro find_from_initial) (simp_all add: first_row_def restart_def)
  have sh2: "shaped cfg ?d2"
    using sh by (simp add: shaped_def first_row_def restart_def)
  have len2: "length (buffer ?d2) = MAX_CHARACTER_COLS cfg + 1"
    using len by (simp add: first_row_def restart_def)
  note a1 = after_slot_fields [OF len2, of True]
  let ?w1 = "after_slot cfg True ?d2"
  have b1: "buffer (stage cfg True ?d2) = rowBuffer d ! 0"
    using stage_found [OF sh2] rows by (simp add: first_row_def restart_def)
  have s1: "loop2_do cfg True now ?d0 = loop2_do cfg True now ?w1"
    using forced_slot [OF _ cols f0, of now] two by (simp add: restart_def)
  have w1: "slot ?w1 = 1" "rowNext ?w1 = 0" "rowFirst ?w1 = ROW_INITIAL cfg"
    "\<not> noMoreRowsToDisplay ?w1" "rowBuffer ?w1 = rowBuffer d" "numCharacterRows ?w1 = 2"
    "calls (deviceDriver ?w1) = calls (deviceDriver d) @ slot_calls cfg 0 (rowBuffer d ! 0)"
    using a1(1-7,9) b1 two by (simp_all add: first_row_def restart_def)
  have lw1: "length (buffer ?w1) = MAX_CHARACTER_COLS cfg + 1"
    using a1(8) len2 by (simp add: stage_fields(10))
  \<comment> \<open>slot 1\<close>
  let ?d3 = "(first_row cfg ?w1)\<lparr> rowNext := 1 \<rparr>"
  have fr: "first_row cfg ?w1 = ?w1\<lparr> rowFirst := 0 \<rparr>"
    using w1 by (simp add: first_row_def)
  have f1: "findNextNonBlankRow cfg (first_row cfg ?w1) = Some (True, ?d3)"
    using find_next [of "first_row cfg ?w1" cfg] rows init r1 w1 by (simp add: fr)
  have d3: "slot ?d3 = 1" "rowNext ?d3 = 1" "rowFirst ?d3 = 0" "\<not> noMoreRowsToDisplay ?d3"
    "rowBuffer ?d3 = rowBuffer d" "numCharacterRows ?d3 = 2"
    "calls (deviceDriver ?d3) = calls (deviceDriver d) @ slot_calls cfg 0 (rowBuffer d ! 0)"
    "length (buffer ?d3) = MAX_CHARACTER_COLS cfg + 1"
    using w1 lw1 by (simp_all add: fr)
  have sh3: "shaped cfg ?d3"
    using sh d3(5,8) by (simp add: shaped_def)
  note a2 = after_slot_fields [OF d3(8), of True]
  let ?w2 = "after_slot cfg True ?d3"
  have b2: "buffer (stage cfg True ?d3) = rowBuffer d ! 1"
    using stage_found [OF sh3] rows d3 by simp
  have w2: "rowFirst ?w2 = 0" "\<not> noMoreRowsToDisplay ?w2" "rowBuffer ?w2 = rowBuffer d"
    "numCharacterRows ?w2 = 2"
    "calls (deviceDriver ?w2) =
       calls (deviceDriver d) @ slot_calls cfg 0 (rowBuffer d ! 0) @ slot_calls cfg 1 (rowBuffer d ! 1)"
    using a2(1-7,9) b2 d3 by simp_all
  have lw2: "length (buffer ?w2) = MAX_CHARACTER_COLS cfg + 1"
    using a2(8) d3(8) by (simp add: stage_fields(10))
  let ?r = "if SCROLLMODE cfg = 2 \<and> \<not> noMoreRowsToDisplay ?d3
               then findNextNonBlankRow cfg (?w2\<lparr> rowNext := rowFirst ?d3 \<rparr>)
               else Some (False, ?w2)"
  have s2: "loop2_do cfg True now ?w1 =
      (case ?r of None \<Rightarrow> None | Some (f, d5) \<Rightarrow> Some (end_pass cfg now d5))"
    using forced_slot [OF a1(2) cols f1, of now] w1 by simp
  have "\<exists>g d5. ?r = Some (g, d5) \<and> deviceDriver d5 = deviceDriver ?w2 \<and>
      rowBuffer d5 = rowBuffer ?w2 \<and> numCharacterRows d5 = numCharacterRows ?w2 \<and>
      buffer d5 = buffer ?w2"
  proof (cases "SCROLLMODE cfg = 2")
    case True
    let ?e = "?w2\<lparr> rowNext := rowFirst ?d3 \<rparr>"
    let ?e' = "?e\<lparr> rowNext := rowNext ?e + 1 \<rparr>"
    have "findNextNonBlankRow cfg ?e = Some (True, ?e')"
      using rows init r1 w2 d3 by (intro find_next) simp_all
    then have "?r = Some (True, ?e')"
      using True d3(4) by simp
    moreover have "deviceDriver ?e' = deviceDriver ?w2 \<and> rowBuffer ?e' = rowBuffer ?w2 \<and>
        numCharacterRows ?e' = numCharacterRows ?w2 \<and> buffer ?e' = buffer ?w2"
      by simp
    ultimately show ?thesis by blast
  next
    case False
    then show ?thesis by auto
  qed
  then obtain g d5 where r: "?r = Some (g, d5)" and d5: "deviceDriver d5 = deviceDriver ?w2"
    "rowBuffer d5 = rowBuffer ?w2" "numCharacterRows d5 = numCharacterRows ?w2"
    "buffer d5 = buffer ?w2"
    by blast
  have "loop2 cfg True now d = Some (end_pass cfg now d5)"
    using s1 s2 r by (simp add: loop2_forced)
  moreover have "shaped cfg (end_pass cfg now d5)"
    using sh d5 w2 lw2 by (simp add: shaped_def end_pass_def)
  ultimately show ?thesis
    using d5 w2 two by (simp add: end_pass_def)
qed

lemma text_row: "takeWhile (\<lambda>b. b \<noteq> 0) row = c # cs \<Longrightarrow> row ! 0 \<noteq> (0 :: byte)"
  by (cases row) (auto split: if_splits)

lemma slot_calls_text:
  "takeWhile (\<lambda>b. b \<noteq> 0) row = t \<Longrightarrow> length t \<le> MAX_CHARACTER_COLS cfg \<Longrightarrow>
   slot_calls cfg s row = line_calls s t (MAX_CHARACTER_COLS cfg)"
  by (simp add: slot_calls_def pad_def line_calls_def)

lemma one_refresh:
  assumes "shaped cfg d" and "0 < MAX_CHARACTER_COLS cfg" and "1 < MAX_CHARACTER_ROWS cfg"
    and "MAX_CHARACTER_ROWS cfg \<le> ROW_INITIAL cfg" and "numCharacterRows d = 2"
    and "takeWhile (\<lambda>b. b \<noteq> 0) (rowBuffer d ! 0) = [a]"
    and "takeWhile (\<lambda>b. b \<noteq> 0) (rowBuffer d ! 1) = [b]"
  shows "\<exists>d'. Display_refresh cfg now d = Some d' \<and>
     calls (deviceDriver d') =
       calls (deviceDriver d) @
       line_calls 0 [a] (MAX_CHARACTER_COLS cfg) @ line_calls 1 [b] (MAX_CHARACTER_COLS cfg) \<and>
     shaped cfg d' \<and> numCharacterRows d' = 2 \<and> rowBuffer d' = rowBuffer d"
proof -
  have r: "rowBuffer d ! 0 ! 0 \<noteq> 0" "rowBuffer d ! 1 ! 0 \<noteq> 0"
    using assms(6,7) by (auto dest: text_row)
  have l: "slot_calls cfg 0 (rowBuffer d ! 0) = line_calls 0 [a] (MAX_CHARACTER_COLS cfg)"
    "slot_calls cfg 1 (rowBuffer d ! 1) = line_calls 1 [b] (MAX_CHARACTER_COLS cfg)"
    using assms(2,6,7) by (simp_all add: slot_calls_text)
  from forced_pass_two_rows [OF assms(1-5) r, of now] show ?thesis
    using assms(5) l by (auto simp: Display_refresh_def)
qed

lemma five_rows_refresh:
  "\<exists>d1. loop2 example_config True now five_rows = Some d1 \<and>
     calls (deviceDriver d1) = line_calls 0 [65] 20 @ line_calls 1 [66] 20"
proof -
  have c: "0 < MAX_CHARACTER_COLS example_config" "1 < MAX_CHARACTER_ROWS example_config"
    "MAX_CHARACTER_ROWS example_config \<le> ROW_INITIAL example_config"
    "MAX_CHARACTER_COLS example_config = 20"
    by (simp_all add: example_config_def)
  have r: "takeWhile (\<lambda>b. b \<noteq> 0) (rowBuffer five_rows ! 0) = [65]"
    "takeWhile (\<lambda>b. b \<noteq> 0) (rowBuffer five_rows ! 1) = [66]"
    by code_simp+
  from one_refresh [OF shaped_five_rows c(1-3) five_rows_facts(1) r, of now]
  show ?thesis
    by (auto simp: c(4) five_rows_facts(3) Display_refresh_def)
qed

subsection \<open>A pass, turn by turn\<close>

text \<open>
  A slot is \<open>MAX_CHARACTER_COLS + 1\<close> turns of the loop: one that stages a line and
  positions the slot, then one for each character.  A forced call runs these turns in
  one call (\<open>forced_turns\<close>); calls \<open>loop2(false)\<close> run one turn each when they are
  due, and until the pass ends \<open>lastScrollTime\<close> stays as it is, so the same calls stay
  due (\<open>loops_filter\<close>).
\<close>

lemma find_found_aux:
  assumes "findNextNonBlankRow cfg d = Some r"
  shows "fst r \<longrightarrow> 0 < MAX_CHARACTER_ROWS cfg \<longrightarrow>
     rowNext (snd r) < MAX_CHARACTER_ROWS cfg \<and> rowBuffer (snd r) ! rowNext (snd r) ! 0 \<noteq> 0"
  apply (rule findNextNonBlankRow.raw_induct
    [where P = "\<lambda>cfg d r. fst r \<longrightarrow> 0 < MAX_CHARACTER_ROWS cfg \<longrightarrow>
     rowNext (snd r) < MAX_CHARACTER_ROWS cfg \<and> rowBuffer (snd r) ! rowNext (snd r) ! 0 \<noteq> 0",
      OF _ assms])
  subgoal premises prems for f cfg d r
    using prems(2) by (auto simp: Let_def split: if_splits dest!: prems(1))
  done

lemma find_found:
  assumes "findNextNonBlankRow cfg d = Some (True, d')" and "0 < MAX_CHARACTER_ROWS cfg"
  shows "rowNext d' < MAX_CHARACTER_ROWS cfg" "rowBuffer d ! rowNext d' ! 0 \<noteq> 0"
  using find_found_aux [OF assms(1)] assms(2) find_fields(3) [OF assms(1)] by simp_all

lemma turns_append:
  "turns cfg (ts @ us) d = (case turns cfg ts d of None \<Rightarrow> None | Some e \<Rightarrow> turns cfg us e)"
  by (induction ts arbitrary: d) (auto split: option.splits)

lemma loops_append:
  "loops cfg (ts @ us) d = (case loops cfg ts d of None \<Rightarrow> None | Some e \<Rightarrow> loops cfg us e)"
  by (induction ts arbitrary: d) (auto split: option.splits)

lemma turns_writes:
  "bufferPointer e = Some p \<Longrightarrow> charIndex e + length ts < MAX_CHARACTER_COLS cfg \<Longrightarrow>
   turns cfg ts e = Some (put_chars (length ts) e)"
proof (induction ts arbitrary: e p)
  case Nil
  then show ?case by simp
next
  case (Cons t ts)
  let ?e1 = "put_char e p"
  have b: "loop2_body cfg t e = Some (False, ?e1)"
    using Cons.prems by (simp add: body_write)
  have "turns cfg ts ?e1 = Some (put_chars (length ts) ?e1)"
    using Cons.prems
    by (intro Cons.IH [OF put_char_fields(9) [OF Cons.prems(1)]]) (simp add: put_char_fields)
  with b Cons.prems(1) show ?case by simp
qed

lemma turns_none:
  "bufferPointer d = None \<Longrightarrow> findNextNonBlankRow cfg (first_row cfg d) = None \<Longrightarrow> ts \<noteq> [] \<Longrightarrow>
   turns cfg ts d = None"
  by (cases ts) (simp_all add: body_position)

lemma turns_prefix:
  assumes "bufferPointer d = None"
    and "findNextNonBlankRow cfg (first_row cfg d) = Some (found, d2)"
    and "ts \<noteq> []" and "length ts \<le> MAX_CHARACTER_COLS cfg"
  shows "turns cfg ts d = Some (put_chars (length ts - 1) (stage cfg found d2))"
proof -
  from assms(3) obtain t us where ts: "ts = t # us" by (cases ts) auto
  have "turns cfg us (stage cfg found d2) = Some (put_chars (length us) (stage cfg found d2))"
    using assms(4) ts by (intro turns_writes [OF stage_fields(8)]) (simp add: stage_fields)
  then show ?thesis
    using assms(1,2) ts by (simp add: body_position)
qed

lemma turns_slot:
  assumes "bufferPointer d = None" and "0 < MAX_CHARACTER_COLS cfg"
    and "findNextNonBlankRow cfg (first_row cfg d) = Some (found, d2)"
    and "length ts = MAX_CHARACTER_COLS cfg + 1"
  shows "turns cfg ts d =
     (if slot d + 1 \<ge> numCharacterRows d then
        (case (if SCROLLMODE cfg = 2 \<and> \<not> noMoreRowsToDisplay d2
               then findNextNonBlankRow cfg ((after_slot cfg found d2)\<lparr> rowNext := rowFirst d2 \<rparr>)
               else Some (False, after_slot cfg found d2)) of
           None \<Rightarrow> None
         | Some (f, d5) \<Rightarrow> Some (end_pass cfg (last ts) d5))
      else Some (after_slot cfg found d2))"
proof -
  let ?n = "MAX_CHARACTER_COLS cfg"
  let ?w0 = "stage cfg found d2"
  let ?w1 = "put_chars (?n - 1) ?w0"
  note f2 = find_fields [OF assms(3)]
  have lb: "length (butlast ts) = ?n"
    using assms(4) by simp
  have ne: "butlast ts \<noteq> []" "length (butlast ts) \<le> ?n" "length (butlast ts) - 1 = ?n - 1"
    using lb assms(2) by (simp_all add: length_0_conv [symmetric] del: length_0_conv length_butlast)
  have ts: "ts = butlast ts @ [last ts]"
    using assms(4) by (cases ts rule: rev_cases) auto
  have s1: "turns cfg (butlast ts) d = Some ?w1"
    using turns_prefix [OF assms(1,3) ne(1,2)] ne(3) by simp
  note pc = put_chars_fields [OF stage_fields(8), of "?n - 1" cfg found d2]
  from pc obtain p1 where p1: "bufferPointer ?w1 = Some p1" by auto
  have "put_chars (?n - 1 + 1) ?w0 = put_chars 1 ?w1"
    by (rule put_chars_add) (simp add: stage_fields)
  then have lst: "put_char ?w1 p1 = put_chars ?n ?w0"
    using assms(2) p1 by simp
  have ci: "charIndex ?w1 + 1 \<ge> ?n"
    using pc by (simp add: stage_fields)
  have sl: "slot ?w1 = slot d" "numCharacterRows ?w1 = numCharacterRows d"
    "noMoreRowsToDisplay ?w1 = noMoreRowsToDisplay d2" "rowFirst ?w1 = rowFirst d2"
    using pc f2 by (simp_all add: stage_fields first_row_def)
  have s2: "turns cfg ts d = turns cfg [last ts] ?w1"
    by (subst ts) (simp add: turns_append s1)
  show ?thesis
  proof (cases "slot d + 1 \<ge> numCharacterRows d")
    case False
    then have "loop2_body cfg (last ts) ?w1 = Some (False, after_slot cfg found d2)"
      using ci sl unfolding body_write [OF p1] lst after_slot_def by simp
    with s2 False show ?thesis by simp
  next
    case True
    let ?r = "if SCROLLMODE cfg = 2 \<and> \<not> noMoreRowsToDisplay d2
               then findNextNonBlankRow cfg ((after_slot cfg found d2)\<lparr> rowNext := rowFirst d2 \<rparr>)
               else Some (False, after_slot cfg found d2)"
    have b: "loop2_body cfg (last ts) ?w1 =
        (case ?r of None \<Rightarrow> None | Some (f, d5) \<Rightarrow> Some (True, end_pass cfg (last ts) d5))"
      using True ci sl unfolding body_write [OF p1] lst after_slot_def
      by (simp cong: option.case_cong)
    have "turns cfg [last ts] ?w1 =
        (case ?r of None \<Rightarrow> None | Some (f, d5) \<Rightarrow> Some (end_pass cfg (last ts) d5))"
    proof (cases ?r)
      case None
      with b show ?thesis by simp
    next
      case (Some a)
      obtain f d5 where "a = (f, d5)" by (cases a)
      with b Some show ?thesis by simp
    qed
    with s2 True show ?thesis by simp
  qed
qed


lemma put_chars_time: "lastScrollTime (put_chars k d) = lastScrollTime d"
  by (induction k arbitrary: d) (simp_all add: put_char_def split: option.split)

lemma kept_time:
  "lastScrollTime (stage cfg found d) = lastScrollTime d"
  "lastScrollTime (first_row cfg d) = lastScrollTime d"
  "lastScrollTime (after_slot cfg found d) = lastScrollTime d"
  by (simp_all add: stage_def first_row_def after_slot_def next_slot_def put_chars_time)

lemma stage_blank: "buffer (stage cfg False d) = (buffer d)[0 := 0]"
  by (simp add: stage_def)

lemma end_pass_fields:
  "buffer (end_pass cfg now d) = buffer d" "rowBuffer (end_pass cfg now d) = rowBuffer d"
  "numCharacterRows (end_pass cfg now d) = numCharacterRows d"
  "bufferPointer (end_pass cfg now d) = bufferPointer d" "slot (end_pass cfg now d) = 0"
  by (simp_all add: end_pass_def)

lemma turns_one_slot:
  assumes cols: "0 < MAX_CHARACTER_COLS cfg" and rows: "0 < MAX_CHARACTER_ROWS cfg"
    and sh: "shaped cfg d" and bp: "bufferPointer d = None"
    and len: "length ts = MAX_CHARACTER_COLS cfg + 1" and run: "turns cfg ts d = Some e"
  shows "buffer e \<in> set (rowBuffer d) \<and> buffer e ! 0 \<noteq> 0 \<or> buffer e ! 0 = 0"
    "calls (deviceDriver e) = calls (deviceDriver d) @ slot_calls cfg (slot d) (buffer e)"
    "rowBuffer e = rowBuffer d" "numCharacterRows e = numCharacterRows d"
    "bufferPointer e = None" "shaped cfg e"
    "slot e = (if numCharacterRows d \<le> slot d + 1 then 0 else slot d + 1)"
    "\<not> numCharacterRows d \<le> slot d + 1 \<Longrightarrow> lastScrollTime e = lastScrollTime d"
proof -
  have ne: "ts \<noteq> []" using len by auto
  obtain found d2 where f: "findNextNonBlankRow cfg (first_row cfg d) = Some (found, d2)"
  proof (cases "findNextNonBlankRow cfg (first_row cfg d)")
    case None
    from turns_none [OF bp None ne] run show ?thesis by simp
  next
    case (Some a)
    with that show ?thesis by (cases a) auto
  qed
  note ff = find_fields [OF f]
  have len2: "length (buffer d2) = MAX_CHARACTER_COLS cfg + 1"
    using ff sh by (simp add: first_row_fields shaped_def)
  have sh2: "shaped cfg d2"
    using ff sh by (simp add: first_row_fields shaped_def)
  note af = after_slot_fields [OF len2, of found]
  let ?w = "after_slot cfg found d2"
  let ?r = "if SCROLLMODE cfg = 2 \<and> \<not> noMoreRowsToDisplay d2
               then findNextNonBlankRow cfg (?w\<lparr> rowNext := rowFirst d2 \<rparr>)
               else Some (False, ?w)"
  note ts = turns_slot [OF bp cols f len]
  have w: "deviceDriver e = deviceDriver ?w \<and> buffer e = buffer ?w \<and> rowBuffer e = rowBuffer ?w \<and>
      numCharacterRows e = numCharacterRows ?w \<and> bufferPointer e = None \<and>
      slot e = (if numCharacterRows d \<le> slot d + 1 then 0 else slot d + 1) \<and>
      (\<not> numCharacterRows d \<le> slot d + 1 \<longrightarrow> lastScrollTime e = lastScrollTime d)"
  proof (cases "numCharacterRows d \<le> slot d + 1")
    case False
    with ts run have "e = ?w" by simp
    then show ?thesis
      using False af(1,2) ff by (simp add: kept_time first_row_fields)
  next
    case True
    with ts run obtain g d5 where r: "?r = Some (g, d5)" and e: "e = end_pass cfg (last ts) d5"
      by (auto split: option.splits)
    have "deviceDriver d5 = deviceDriver ?w \<and> buffer d5 = buffer ?w \<and> rowBuffer d5 = rowBuffer ?w \<and>
      numCharacterRows d5 = numCharacterRows ?w \<and> bufferPointer d5 = bufferPointer ?w"
    proof (cases "SCROLLMODE cfg = 2 \<and> \<not> noMoreRowsToDisplay d2")
      case True
      with r have "findNextNonBlankRow cfg (?w\<lparr> rowNext := rowFirst d2 \<rparr>) = Some (g, d5)" by simp
      from find_fields(1,3,4,5,8) [OF this] show ?thesis by simp
    next
      case False
      with r show ?thesis by auto
    qed
    then show ?thesis
      using True e af(2) by (simp add: end_pass_fields end_pass_calls)
  qed
  have b: "buffer e = buffer (stage cfg found d2)"
    using w af(8) by simp
  show "buffer e \<in> set (rowBuffer d) \<and> buffer e ! 0 \<noteq> 0 \<or> buffer e ! 0 = 0"
  proof (cases found)
    case True
    from f True have "findNextNonBlankRow cfg (first_row cfg d) = Some (True, d2)" by simp
    from find_found [OF this rows]
    have r: "rowNext d2 < MAX_CHARACTER_ROWS cfg" "rowBuffer d ! rowNext d2 ! 0 \<noteq> 0"
      by (simp_all add: first_row_fields)
    have "buffer e = rowBuffer d ! rowNext d2"
      using b True stage_found [OF sh2 r(1)] ff by (simp add: first_row_fields)
    moreover have "rowBuffer d ! rowNext d2 \<in> set (rowBuffer d)"
      using r(1) sh by (simp add: shaped_def)
    ultimately show ?thesis using r(2) by simp
  next
    case False
    then show ?thesis
      using b len2 by (simp add: stage_blank)
  qed
  show "calls (deviceDriver e) = calls (deviceDriver d) @ slot_calls cfg (slot d) (buffer e)"
    using w af(9) b ff by (simp add: first_row_fields)
  show "rowBuffer e = rowBuffer d"
    using w af(3) ff by (simp add: first_row_fields)
  show "numCharacterRows e = numCharacterRows d"
    using w af(4) ff by (simp add: first_row_fields)
  show "bufferPointer e = None" using w by simp
  show "shaped cfg e"
    using w af(3,8) ff sh len2 by (simp add: shaped_def first_row_fields stage_fields(10))
  show "slot e = (if numCharacterRows d \<le> slot d + 1 then 0 else slot d + 1)"
    using w by blast
  show "\<not> numCharacterRows d \<le> slot d + 1 \<Longrightarrow> lastScrollTime e = lastScrollTime d"
    using w by blast
qed


lemma turns_slots:
  assumes cols: "0 < MAX_CHARACTER_COLS cfg" and rows: "0 < MAX_CHARACTER_ROWS cfg"
  shows "shaped cfg d \<Longrightarrow> bufferPointer d = None \<Longrightarrow>
    m \<le> max 1 (numCharacterRows d - slot d) \<Longrightarrow>
    length ts = m * (MAX_CHARACTER_COLS cfg + 1) \<Longrightarrow> turns cfg ts d = Some d' \<Longrightarrow>
    \<exists>lines. length lines = m \<and>
      (\<forall>l \<in> set lines. l \<in> set (rowBuffer d) \<and> l ! 0 \<noteq> 0 \<or> l ! 0 = 0) \<and>
      (0 < m \<longrightarrow> last lines = buffer d') \<and>
      calls (deviceDriver d') =
        calls (deviceDriver d) @ concat (map2 (slot_calls cfg) [slot d ..< slot d + m] lines) \<and>
      bufferPointer d' = None \<and>
      (0 < m \<longrightarrow> slot d' = (if slot d + m < numCharacterRows d then slot d + m else 0))"
proof (induction m arbitrary: d ts)
  case 0
  then show ?case by simp
next
  case (Suc m)
  let ?n = "MAX_CHARACTER_COLS cfg + 1"
  let ?a = "take ?n ts"
  let ?b = "drop ?n ts"
  have la: "length ?a = ?n" and lb: "length ?b = m * ?n"
    using Suc.prems(4) by simp_all
  have "turns cfg (?a @ ?b) d = Some d'"
    using Suc.prems(5) by simp
  then obtain e where e: "turns cfg ?a d = Some e" and r: "turns cfg ?b e = Some d'"
    unfolding turns_append by (auto split: option.splits)
  note one = turns_one_slot [OF cols rows Suc.prems(1,2) la e]
  show ?case
  proof (cases m)
    case 0
    with lb r have "d' = e" by simp
    with one(1,2,5,7) 0 show ?thesis
      by (intro exI [of _ "[buffer e]"]) auto
  next
    case (Suc k)
    with Suc.prems(3) have more: "\<not> numCharacterRows d \<le> slot d + 1" by simp
    with one(7) have se: "slot e = slot d + 1" by simp
    have "m \<le> max 1 (numCharacterRows e - slot e)"
      using Suc.prems(3) se one(4) by simp
    from Suc.IH [OF one(6,5) this lb r] obtain lines where
      l: "length lines = m"
        "\<forall>l \<in> set lines. l \<in> set (rowBuffer e) \<and> l ! 0 \<noteq> 0 \<or> l ! 0 = 0"
        "0 < m \<longrightarrow> last lines = buffer d'"
        "calls (deviceDriver d') =
           calls (deviceDriver e) @ concat (map2 (slot_calls cfg) [slot e ..< slot e + m] lines)"
        "bufferPointer d' = None"
        "0 < m \<longrightarrow> slot d' = (if slot e + m < numCharacterRows e then slot e + m else 0)"
      by blast
    have ne: "lines \<noteq> []" using l(1) Suc by auto
    have up: "[slot d ..< slot d + Suc m] = slot d # [slot e ..< slot e + m]"
      using se by (simp add: upt_conv_Cons)
    have sl: "slot d' = (if slot d + Suc m < numCharacterRows d then slot d + Suc m else 0)"
      using l(6) se one(4) Suc by simp
    have "length (buffer e # lines) = Suc m \<and>
      (\<forall>l \<in> set (buffer e # lines). l \<in> set (rowBuffer d) \<and> l ! 0 \<noteq> 0 \<or> l ! 0 = 0) \<and>
      last (buffer e # lines) = buffer d' \<and>
      calls (deviceDriver d') =
        calls (deviceDriver d) @
        concat (map2 (slot_calls cfg) [slot d ..< slot d + Suc m] (buffer e # lines))"
      using l(1-4) ne one(1,2,3) Suc unfolding up by simp
    with l(5) sl show ?thesis by blast
  qed
qed

lemma turns_within:
  assumes cols: "0 < MAX_CHARACTER_COLS cfg" and rows: "0 < MAX_CHARACTER_ROWS cfg"
  shows "shaped cfg d \<Longrightarrow> bufferPointer d = None \<Longrightarrow>
    length us < max 1 (numCharacterRows d - slot d) * (MAX_CHARACTER_COLS cfg + 1) \<Longrightarrow>
    turns cfg us d = Some e \<Longrightarrow> lastScrollTime e = lastScrollTime d"
proof (induction "length us" arbitrary: us d rule: less_induct)
  case less
  let ?n = "MAX_CHARACTER_COLS cfg + 1"
  show ?case
  proof (cases "length us \<le> MAX_CHARACTER_COLS cfg")
    case True
    show ?thesis
    proof (cases "us = []")
      case True
      with less.prems(4) show ?thesis by simp
    next
      case ne: False
      obtain found d2 where f: "findNextNonBlankRow cfg (first_row cfg d) = Some (found, d2)"
      proof (cases "findNextNonBlankRow cfg (first_row cfg d)")
        case None
        from turns_none [OF less.prems(2) None ne] less.prems(4) show ?thesis by simp
      next
        case (Some a)
        with that show ?thesis by (cases a) auto
      qed
      from turns_prefix [OF less.prems(2) f ne True] less.prems(4)
      have "e = put_chars (length us - 1) (stage cfg found d2)" by simp
      then show ?thesis
        using find_fields(10) [OF f] by (simp add: put_chars_time kept_time)
    qed
  next
    case False
    let ?a = "take ?n us"
    let ?b = "drop ?n us"
    have la: "length ?a = ?n" and lb: "length ?b = length us - ?n"
      using False by simp_all
    have "turns cfg (?a @ ?b) d = Some e"
      using less.prems(4) by simp
    then obtain e1 where e1: "turns cfg ?a d = Some e1" and r: "turns cfg ?b e1 = Some e"
      unfolding turns_append by (auto split: option.splits)
    note one = turns_one_slot [OF cols rows less.prems(1,2) la e1]
    have two: "1 < max 1 (numCharacterRows d - slot d)"
    proof (rule ccontr)
      assume "\<not> 1 < max 1 (numCharacterRows d - slot d)"
      then have "max 1 (numCharacterRows d - slot d) = 1" by simp
      with less.prems(3) False show False by simp
    qed
    then have more: "\<not> numCharacterRows d \<le> slot d + 1" by simp
    with one(7) have se: "slot e1 = slot d + 1" by simp
    have m: "max 1 (numCharacterRows e1 - slot e1) = max 1 (numCharacterRows d - slot d) - 1"
      using se one(4) more by simp
    have "length us - ?n < (max 1 (numCharacterRows d - slot d) - 1) * ?n"
      using less.prems(3) False two by (simp add: diff_mult_distrib)
    then have "length ?b < max 1 (numCharacterRows e1 - slot e1) * ?n"
      using lb m by simp
    moreover have "length ?b < length us" using False lb by simp
    ultimately have "lastScrollTime e = lastScrollTime e1"
      using less.hyps [of ?b e1] one(6,5) r by blast
    with one(8) [OF more] show ?thesis by simp
  qed
qed

lemma loop2_unforced:
  "loop2 cfg False t d = (if due cfg d t then turns cfg [t] d else Some d)"
proof -
  have "loop2_do cfg False t d =
      (case loop2_body cfg t d of None \<Rightarrow> None | Some (returned, d1) \<Rightarrow> Some d1)"
    by (subst loop2_do.simps) (simp split: option.split)
  then show ?thesis
    by (simp add: loop2_def due_def split: option.split)
qed

lemma length_filter_butlast: "length (filter P (butlast xs)) \<le> length (filter P xs)"
  by (cases xs rule: rev_cases) simp_all

lemma length_filter_last: "length (filter P xs) \<le> length (filter P (butlast xs)) + 1"
  by (cases xs rule: rev_cases) simp_all

lemma loops_filter:
  assumes cols: "0 < MAX_CHARACTER_COLS cfg" and rows: "0 < MAX_CHARACTER_ROWS cfg"
    and sh: "shaped cfg d" and bp: "bufferPointer d = None"
  shows "length (filter (due cfg d) (butlast ts)) <
      max 1 (numCharacterRows d - slot d) * (MAX_CHARACTER_COLS cfg + 1) \<Longrightarrow>
    loops cfg ts d = turns cfg (filter (due cfg d) ts) d"
proof (induction ts rule: rev_induct)
  case Nil
  then show ?case by simp
next
  case (snoc t ts)
  let ?us = "filter (due cfg d) ts"
  have len: "length ?us < max 1 (numCharacterRows d - slot d) * (MAX_CHARACTER_COLS cfg + 1)"
    using snoc.prems by simp
  then have "length (filter (due cfg d) (butlast ts)) <
      max 1 (numCharacterRows d - slot d) * (MAX_CHARACTER_COLS cfg + 1)"
    using length_filter_butlast [of "due cfg d" ts] by simp
  then have ih: "loops cfg ts d = turns cfg ?us d" by (rule snoc.IH)
  show ?case
  proof (cases "turns cfg ?us d")
    case None
    with ih show ?thesis by (simp add: loops_append turns_append)
  next
    case (Some e)
    from turns_within [OF cols rows sh bp len Some]
    have "due cfg e t = due cfg d t" by (simp add: due_def)
    then have "loops cfg [t] e = turns cfg (filter (due cfg d) [t]) e"
      by (simp add: loop2_unforced split: option.split)
    with ih Some show ?thesis by (simp add: loops_append turns_append)
  qed
qed

lemma forced_turns_from:
  assumes cols: "0 < MAX_CHARACTER_COLS cfg"
  shows "length (buffer d) = MAX_CHARACTER_COLS cfg + 1 \<Longrightarrow> bufferPointer d = None \<Longrightarrow>
    n = numCharacterRows d - slot d - 1 \<Longrightarrow>
    loop2_do cfg True now d = turns cfg (replicate (Suc n * (MAX_CHARACTER_COLS cfg + 1)) now) d"
proof (induction n arbitrary: d)
  case 0
  let ?ts = "replicate (MAX_CHARACTER_COLS cfg + 1) now"
  have l: "length ?ts = MAX_CHARACTER_COLS cfg + 1" "last ?ts = now" "?ts \<noteq> []"
    by simp_all
  show ?case
  proof (cases "findNextNonBlankRow cfg (first_row cfg d)")
    case None
    then have "loop2_body cfg now d = None"
      using 0(2) by (simp add: body_position)
    then have "loop2_do cfg True now d = None"
      by (subst loop2_do.simps) simp
    with turns_none [OF 0(2) None l(3)] show ?thesis by simp
  next
    case (Some a)
    obtain found d2 where a: "a = (found, d2)" by (cases a)
    have last: "slot d + 1 \<ge> numCharacterRows d" using 0(3) by simp
    have "loop2_do cfg True now d = turns cfg ?ts d"
      unfolding forced_slot [OF 0(2) cols Some [unfolded a], of now]
        turns_slot [OF 0(2) cols Some [unfolded a] l(1)] l(2)
      using last by (simp only: if_True)
    then show ?thesis by simp
  qed
next
  case (Suc n)
  let ?n = "MAX_CHARACTER_COLS cfg + 1"
  let ?ts = "replicate ?n now"
  have l: "length ?ts = ?n" "?ts \<noteq> []"
    by simp_all
  have "Suc (Suc n) * ?n = ?n + Suc n * ?n" by simp
  then have sp: "replicate (Suc (Suc n) * ?n) now = ?ts @ replicate (Suc n * ?n) now"
    by (simp only: replicate_add)
  show ?case
  proof (cases "findNextNonBlankRow cfg (first_row cfg d)")
    case None
    then have "loop2_body cfg now d = None"
      using Suc.prems(2) by (simp add: body_position)
    then have "loop2_do cfg True now d = None"
      by (subst loop2_do.simps) simp
    moreover have "turns cfg (replicate (Suc (Suc n) * ?n) now) d = None"
      by (rule turns_none [OF Suc.prems(2) None]) simp
    ultimately show ?thesis by simp
  next
    case (Some a)
    obtain found d2 where a: "a = (found, d2)" by (cases a)
    note f = Some [unfolded a]
    note ff = find_fields [OF f]
    have len2: "length (buffer d2) = MAX_CHARACTER_COLS cfg + 1"
      using ff Suc.prems(1) by (simp add: first_row_fields)
    note af = after_slot_fields [OF len2, of found]
    let ?w = "after_slot cfg found d2"
    have more: "\<not> slot d + 1 \<ge> numCharacterRows d" using Suc.prems(3) by simp
    have lenw: "length (buffer ?w) = MAX_CHARACTER_COLS cfg + 1"
      using af(8) len2 by (simp add: stage_fields)
    have n: "n = numCharacterRows ?w - slot ?w - 1"
      using Suc.prems(3) af ff by (simp add: first_row_fields)
    have "loop2_do cfg True now d = loop2_do cfg True now ?w"
      using forced_slot [OF Suc.prems(2) cols f, of now] more by simp
    also have "\<dots> = turns cfg (replicate (Suc n * ?n) now) ?w"
      by (rule Suc.IH [OF lenw af(2) n])
    also have "\<dots> = turns cfg (replicate (Suc (Suc n) * ?n) now) d"
    proof -
      have "turns cfg ?ts d = Some ?w"
        unfolding turns_slot [OF Suc.prems(2) cols f l(1)] using more by (simp only: if_False)
      then show ?thesis
        unfolding sp turns_append by (simp only: option.case)
    qed
    finally show ?thesis .
  qed
qed

lemma forced_turns:
  assumes "shaped cfg d" and "0 < MAX_CHARACTER_COLS cfg"
  shows "loop2 cfg True now d =
     turns cfg (replicate (max 1 (numCharacterRows d) * (MAX_CHARACTER_COLS cfg + 1)) now)
       (restart cfg d)"
proof -
  have len: "length (buffer (restart cfg d)) = MAX_CHARACTER_COLS cfg + 1"
    using assms(1) by (simp add: shaped_def restart_def)
  have m: "Suc (numCharacterRows d - 1) = max 1 (numCharacterRows d)" by auto
  have "loop2_do cfg True now (restart cfg d) =
      turns cfg (replicate (Suc (numCharacterRows d - 1) * (MAX_CHARACTER_COLS cfg + 1)) now)
        (restart cfg d)"
    by (rule forced_turns_from [OF assms(2) len]) (simp_all add: restart_def)
  then show ?thesis
    unfolding m by (simp add: loop2_forced)
qed

lemma body_rows:
  assumes "loop2_body cfg now d = Some (ret, d')"
  shows "rowBuffer d' = rowBuffer d"
proof (cases "bufferPointer d")
  case None
  from assms obtain found d2 where f: "findNextNonBlankRow cfg (first_row cfg d) = Some (found, d2)"
    and d': "d' = stage cfg found d2"
    by (auto simp: body_position [OF None] split: option.splits)
  from find_fields(3) [OF f] d' show ?thesis
    by (simp add: stage_fields first_row_fields)
next
  case (Some p)
  show ?thesis
  proof (cases "charIndex d + 1 \<ge> MAX_CHARACTER_COLS cfg \<and> slot d + 1 \<ge> numCharacterRows d")
    case True
    show ?thesis
    proof (cases "SCROLLMODE cfg = 2 \<and> \<not> noMoreRowsToDisplay d")
      case m: True
      from assms True m obtain found d5 where
        f: "findNextNonBlankRow cfg ((next_slot (put_char d p))\<lparr> rowNext := rowFirst d \<rparr>) = Some (found, d5)"
        and d': "d' = end_pass cfg now d5"
        by (auto simp: body_write [OF Some] split: option.splits)
      from find_fields(3) [OF f] d' show ?thesis
        by (simp add: end_pass_def next_slot_def put_char_fields)
    next
      case False
      with assms True show ?thesis
        by (auto simp: body_write [OF Some] end_pass_def next_slot_def put_char_fields)
    qed
  next
    case False
    with assms show ?thesis
      by (auto simp: body_write [OF Some] next_slot_def put_char_fields split: if_splits)
  qed
qed

lemma turn_one:
  assumes "turns cfg [t] d = Some d1"
  shows "\<exists>ret. loop2_body cfg t d = Some (ret, d1)"
proof (cases "loop2_body cfg t d")
  case None
  with assms show ?thesis by simp
next
  case (Some a)
  obtain r e where a: "a = (r, e)" by (cases a)
  with assms Some have "e = d1" by simp
  with Some a show ?thesis by simp
qed

lemma loop2_rows:
  assumes d1: "loop2 cfg False t d = Some d1"
  shows "rowBuffer d1 = rowBuffer d"
proof (cases "due cfg d t")
  case True
  with d1 have "turns cfg [t] d = Some d1"
    by (simp only: loop2_unforced if_True)
  from turn_one [OF this] obtain ret where "loop2_body cfg t d = Some (ret, d1)" ..
  then show ?thesis by (rule body_rows)
next
  case False
  with d1 have "Some d = Some d1"
    by (simp only: loop2_unforced if_False)
  then have "d1 = d" by (simp only: option.inject)
  then show ?thesis by (rule arg_cong)
qed

lemma loops_returns:
  assumes rows: "0 < MAX_CHARACTER_ROWS cfg" "MAX_CHARACTER_ROWS cfg \<le> ROW_INITIAL cfg"
  shows "SCROLLMODE cfg = 1 \<or> has_text cfg d \<Longrightarrow> loops cfg ts d \<noteq> None"
proof (induction ts arbitrary: d)
  case Nil
  then show ?case by simp
next
  case (Cons t ts)
  from loop2_returns [OF rows Cons.prems, of t] obtain d1 where
    d1: "loop2 cfg False t d = Some d1" by auto
  from loop2_rows [OF d1] have "SCROLLMODE cfg = 1 \<or> has_text cfg d1"
    using Cons.prems has_text_same [of d1 d cfg] by simp
  from Cons.IH [OF this] show ?case
    by (simp add: d1)
qed


lemma slots_counts:
  assumes "length lines = m"
    and "cs' = cs @ concat (map2 (slot_calls cfg) [s ..< s + m] lines)"
  shows "write_counts (drop (length cs) cs') = replicate m (MAX_CHARACTER_COLS cfg)"
  using assms by (simp add: write_counts_slots)

lemma unforced_slots:
  assumes cols: "0 < MAX_CHARACTER_COLS cfg" and rows: "0 < MAX_CHARACTER_ROWS cfg"
    and sh: "shaped cfg d" and bp: "bufferPointer d = None"
    and before: "length (filter (due cfg d) (butlast ts)) <
      max 1 (numCharacterRows d - slot d) * (MAX_CHARACTER_COLS cfg + 1)"
    and len: "length (filter (due cfg d) ts) = m * (MAX_CHARACTER_COLS cfg + 1)"
    and run: "loops cfg ts d = Some d'"
  shows "\<exists>lines. length lines = m \<and>
      (\<forall>l \<in> set lines. l \<in> set (rowBuffer d) \<and> l ! 0 \<noteq> 0 \<or> l ! 0 = 0) \<and>
      (0 < m \<longrightarrow> last lines = buffer d') \<and>
      calls (deviceDriver d') =
        calls (deviceDriver d) @ concat (map2 (slot_calls cfg) [slot d ..< slot d + m] lines) \<and>
      bufferPointer d' = None \<and>
      (0 < m \<longrightarrow> slot d' = (if slot d + m < numCharacterRows d then slot d + m else 0))"
proof -
  let ?n = "MAX_CHARACTER_COLS cfg + 1"
  let ?M = "max 1 (numCharacterRows d - slot d)"
  have t: "turns cfg (filter (due cfg d) ts) d = Some d'"
    using loops_filter [OF cols rows sh bp before] run by simp
  have "m * ?n < ?M * ?n + 1"
    using length_filter_last [of "due cfg d" ts] before len by simp
  then have "m * ?n \<le> ?M * ?n" by simp
  then have m: "m \<le> ?M" unfolding mult_le_cancel2 by simp
  show ?thesis
    by (rule turns_slots [OF cols rows sh bp m len t])
qed

lemma forced_slots:
  assumes cols: "0 < MAX_CHARACTER_COLS cfg" and rows: "0 < MAX_CHARACTER_ROWS cfg"
    and sh: "shaped cfg d" and run: "loop2 cfg True now d = Some d'"
  shows "\<exists>lines. length lines = max 1 (numCharacterRows d) \<and>
      (\<forall>l \<in> set lines. l \<in> set (rowBuffer d) \<and> l ! 0 \<noteq> 0 \<or> l ! 0 = 0) \<and>
      last lines = buffer d' \<and>
      calls (deviceDriver d') =
        calls (deviceDriver d) @ concat (map2 (slot_calls cfg) [0 ..< length lines] lines) \<and>
      bufferPointer d' = None \<and> slot d' = 0"
proof -
  let ?n = "MAX_CHARACTER_COLS cfg + 1"
  let ?m = "max 1 (numCharacterRows d)"
  let ?d0 = "restart cfg d"
  have sh0: "shaped cfg ?d0" using sh by (simp add: shaped_def restart_def)
  have r0: "bufferPointer ?d0 = None" "slot ?d0 = 0" "numCharacterRows ?d0 = numCharacterRows d"
    "rowBuffer ?d0 = rowBuffer d" "deviceDriver ?d0 = deviceDriver d"
    by (simp_all add: restart_def)
  have t: "turns cfg (replicate (?m * ?n) now) ?d0 = Some d'"
    using forced_turns [OF sh cols, of now] run by simp
  have m: "?m \<le> max 1 (numCharacterRows ?d0 - slot ?d0)"
    using r0 by simp
  from turns_slots [OF cols rows sh0 r0(1) m _ t] obtain lines where
    l: "length lines = ?m"
      "\<forall>l \<in> set lines. l \<in> set (rowBuffer ?d0) \<and> l ! 0 \<noteq> 0 \<or> l ! 0 = 0"
      "0 < ?m \<longrightarrow> last lines = buffer d'"
      "calls (deviceDriver d') =
         calls (deviceDriver ?d0) @ concat (map2 (slot_calls cfg) [slot ?d0 ..< slot ?d0 + ?m] lines)"
      "bufferPointer d' = None"
      "0 < ?m \<longrightarrow> slot d' = (if slot ?d0 + ?m < numCharacterRows ?d0 then slot ?d0 + ?m else 0)"
    by auto
  have "slot d' = 0" using l(6) r0 by (simp split: if_splits)
  moreover have "last lines = buffer d'" using l(3) by simp
  moreover have "calls (deviceDriver d') =
        calls (deviceDriver d) @ concat (map2 (slot_calls cfg) [0 ..< length lines] lines)"
    using l(4) l(1) r0 by simp
  ultimately show ?thesis
    using l(1,2,5) r0(4) by (intro exI [of _ lines]) simp
qed

subsection \<open>Character writes per slot\<close>

text \<open>
  C8, as stated, fails: the number of characters written per slot is the constant
  \<open>MAX_CHARACTER_COLS\<close>, not the column count that the constructor read from the
  device.  On the example display the device has 16 columns and each of the two slots
  receives 20 characters.
\<close>

theorem column_count_counterexample:
  "numCharacterColumns five_rows = 16 \<and>
   map_option write_counts (traffic (loop2 example_config True 0 five_rows)) = Some [20, 20]"
proof -
  from five_rows_refresh [of 0] obtain d1 where
    d1: "loop2 example_config True 0 five_rows = Some d1"
      "calls (deviceDriver d1) = line_calls 0 [65] 20 @ line_calls 1 [66] 20"
    by auto
  have "write_counts (line_calls 0 [65] 20 @ line_calls 1 [66] 20) = [20, 20]"
    by code_simp
  with d1 five_rows_facts(2) show ?thesis by (simp add: traffic_def)
qed

text \<open>
  C8, amended.  The calls of a pass, forced or not, that position and fill \<open>m\<close> slots
  send the device, for each of these slots in turn, one \<open>setRowNative\<close> for the slot
  followed by exactly \<open>MAX_CHARACTER_COLS\<close> \<open>writeNative\<close>, and leave the next slot to be
  positioned (slot 0 after the last slot of the device).  What a slot is sent is its
  staged line, the contents of \<open>buffer\<close>, up to the terminator and then spaces
  (\<open>pad\<close>); and every staged line is a row of \<open>rowBuffer\<close> that has text, or a line
  whose first byte is the terminator.

  For a pass of calls \<open>loop2(false)\<close>, \<open>d\<close> is a state where no line is staged
  (\<open>bufferPointer\<close> is null) and \<open>ts\<close> are the readings of the clock, one for each
  call.  A call inside the scroll interval does nothing, so \<open>m\<close> slots take
  \<open>m * (MAX_CHARACTER_COLS + 1)\<close> calls that are due; the calls before the last one hold
  fewer due calls than the slots left on the device take, so that the pass has not ended
  (and set \<open>lastScrollTime\<close>) before the last call.  A forced call starts at slot 0 from
  any state and fills as many slots as the device has rows (one slot when that number
  is 0).  The calls do return when \<open>ROW_INITIAL\<close> is no row index and either
  \<open>SCROLLMODE\<close> is 1 or some row has text.  The arrays have their declared shape, with
  at least one row and one column.
\<close>

theorem slot_character_writes:
  assumes "shaped cfg d" and "0 < MAX_CHARACTER_ROWS cfg" and "0 < MAX_CHARACTER_COLS cfg"
  shows "(MAX_CHARACTER_ROWS cfg \<le> ROW_INITIAL cfg \<and> (SCROLLMODE cfg = 1 \<or> has_text cfg d) \<longrightarrow>
            loops cfg ts d \<noteq> None \<and> loop2 cfg True now d \<noteq> None) \<and>
         (\<forall>d'. bufferPointer d = None \<and>
               length (filter (due cfg d) (butlast ts)) <
                 max 1 (numCharacterRows d - slot d) * (MAX_CHARACTER_COLS cfg + 1) \<and>
               length (filter (due cfg d) ts) = m * (MAX_CHARACTER_COLS cfg + 1) \<and>
               loops cfg ts d = Some d' \<longrightarrow>
            (\<exists>lines. length lines = m \<and>
               (\<forall>l \<in> set lines. l \<in> set (rowBuffer d) \<and> l ! 0 \<noteq> 0 \<or> l ! 0 = 0) \<and>
               (0 < m \<longrightarrow> last lines = buffer d') \<and>
               calls (deviceDriver d') =
                 calls (deviceDriver d) @
                 concat (map2 (slot_calls cfg) [slot d ..< slot d + m] lines) \<and>
               bufferPointer d' = None \<and>
               (0 < m \<longrightarrow> slot d' = (if slot d + m < numCharacterRows d then slot d + m else 0))) \<and>
            write_counts (drop (length (calls (deviceDriver d))) (calls (deviceDriver d'))) =
              replicate m (MAX_CHARACTER_COLS cfg)) \<and>
         (\<forall>d'. loop2 cfg True now d = Some d' \<longrightarrow>
            (\<exists>lines. length lines = max 1 (numCharacterRows d) \<and>
               (\<forall>l \<in> set lines. l \<in> set (rowBuffer d) \<and> l ! 0 \<noteq> 0 \<or> l ! 0 = 0) \<and>
               last lines = buffer d' \<and>
               calls (deviceDriver d') =
                 calls (deviceDriver d) @
                 concat (map2 (slot_calls cfg) [0 ..< length lines] lines) \<and>
               bufferPointer d' = None \<and> slot d' = 0) \<and>
            write_counts (drop (length (calls (deviceDriver d))) (calls (deviceDriver d'))) =
              replicate (max 1 (numCharacterRows d)) (MAX_CHARACTER_COLS cfg))"
proof (intro conjI allI impI)
  assume a: "MAX_CHARACTER_ROWS cfg \<le> ROW_INITIAL cfg \<and> (SCROLLMODE cfg = 1 \<or> has_text cfg d)"
  then show "loops cfg ts d \<noteq> None"
    using loops_returns [OF assms(2), of d ts] by blast
  from a show "loop2 cfg True now d \<noteq> None"
    using forced_pass_returns [OF assms(2) _ assms(3,1), of now] by blast
next
  fix d'
  assume a: "bufferPointer d = None \<and>
      length (filter (due cfg d) (butlast ts)) <
        max 1 (numCharacterRows d - slot d) * (MAX_CHARACTER_COLS cfg + 1) \<and>
      length (filter (due cfg d) ts) = m * (MAX_CHARACTER_COLS cfg + 1) \<and>
      loops cfg ts d = Some d'"
  then have u: "\<exists>lines. length lines = m \<and>
      (\<forall>l \<in> set lines. l \<in> set (rowBuffer d) \<and> l ! 0 \<noteq> 0 \<or> l ! 0 = 0) \<and>
      (0 < m \<longrightarrow> last lines = buffer d') \<and>
      calls (deviceDriver d') =
        calls (deviceDriver d) @ concat (map2 (slot_calls cfg) [slot d ..< slot d + m] lines) \<and>
      bufferPointer d' = None \<and>
      (0 < m \<longrightarrow> slot d' = (if slot d + m < numCharacterRows d then slot d + m else 0))"
    using unforced_slots [OF assms(3,2,1), of ts m d'] by blast
  then show "\<exists>lines. length lines = m \<and>
      (\<forall>l \<in> set lines. l \<in> set (rowBuffer d) \<and> l ! 0 \<noteq> 0 \<or> l ! 0 = 0) \<and>
      (0 < m \<longrightarrow> last lines = buffer d') \<and>
      calls (deviceDriver d') =
        calls (deviceDriver d) @ concat (map2 (slot_calls cfg) [slot d ..< slot d + m] lines) \<and>
      bufferPointer d' = None \<and>
      (0 < m \<longrightarrow> slot d' = (if slot d + m < numCharacterRows d then slot d + m else 0))" .
  from u show "write_counts (drop (length (calls (deviceDriver d))) (calls (deviceDriver d'))) =
      replicate m (MAX_CHARACTER_COLS cfg)"
    using slots_counts by blast
next
  fix d'
  assume a: "loop2 cfg True now d = Some d'"
  note f = forced_slots [OF assms(3,2,1) a]
  then show "\<exists>lines. length lines = max 1 (numCharacterRows d) \<and>
      (\<forall>l \<in> set lines. l \<in> set (rowBuffer d) \<and> l ! 0 \<noteq> 0 \<or> l ! 0 = 0) \<and>
      last lines = buffer d' \<and>
      calls (deviceDriver d') =
        calls (deviceDriver d) @ concat (map2 (slot_calls cfg) [0 ..< length lines] lines) \<and>
      bufferPointer d' = None \<and> slot d' = 0" .
  from f obtain lines where l: "length lines = max 1 (numCharacterRows d)"
    "calls (deviceDriver d') =
        calls (deviceDriver d) @ concat (map2 (slot_calls cfg) [0 ..< 0 + length lines] lines)"
    by auto
  show "write_counts (drop (length (calls (deviceDriver d))) (calls (deviceDriver d'))) =
      replicate (max 1 (numCharacterRows d)) (MAX_CHARACTER_COLS cfg)"
    using slots_counts [OF refl l(2)] l(1) by simp
qed

text \<open>
  On the example display: a call inside the scroll interval, then 21 calls after it,
  fill slot 0 with 20 characters; a forced call fills both slots with 20 characters each.
\<close>

theorem slot_character_writes_witness:
  "loops example_config (0 # replicate 21 3000) five_rows \<noteq> None \<and>
   loop2 example_config True 0 five_rows \<noteq> None \<and>
   (\<exists>d'. loops example_config (0 # replicate 21 3000) five_rows = Some d' \<and>
      (\<exists>lines. length lines = 1 \<and>
         (\<forall>l \<in> set lines. l \<in> set (rowBuffer five_rows) \<and> l ! 0 \<noteq> 0 \<or> l ! 0 = 0) \<and>
         last lines = buffer d' \<and>
         calls (deviceDriver d') = concat (map2 (slot_calls example_config) [0 ..< 1] lines) \<and>
         bufferPointer d' = None \<and> slot d' = 1) \<and>
      write_counts (calls (deviceDriver d')) = [20]) \<and>
   (\<exists>d'. loop2 example_config True 0 five_rows = Some d' \<and>
      (\<exists>lines. length lines = 2 \<and>
         (\<forall>l \<in> set lines. l \<in> set (rowBuffer five_rows) \<and> l ! 0 \<noteq> 0 \<or> l ! 0 = 0) \<and>
         last lines = buffer d' \<and>
         calls (deviceDriver d') = concat (map2 (slot_calls example_config) [0 ..< 2] lines) \<and>
         bufferPointer d' = None \<and> slot d' = 0) \<and>
      write_counts (calls (deviceDriver d')) = [20, 20])"
proof -
  have c: "0 < MAX_CHARACTER_ROWS example_config" "0 < MAX_CHARACTER_COLS example_config"
    "MAX_CHARACTER_ROWS example_config \<le> ROW_INITIAL example_config"
    "MAX_CHARACTER_COLS example_config = 20"
    by (simp_all add: example_config_def)
  have t: "has_text example_config five_rows"
    by code_simp
  have bp: "bufferPointer five_rows = None" and sl: "slot five_rows = 0"
    by code_simp+
  have before: "length (filter (due example_config five_rows) (butlast (0 # replicate 21 3000))) <
      max 1 (numCharacterRows five_rows - slot five_rows) * (MAX_CHARACTER_COLS example_config + 1)"
    by code_simp
  have len: "length (filter (due example_config five_rows) (0 # replicate 21 3000)) =
      1 * (MAX_CHARACTER_COLS example_config + 1)"
    by code_simp
  note inst = slot_character_writes [OF shaped_five_rows c(1,2), of "0 # replicate 21 3000" 0 1]
  from inst c(3) t have r: "loops example_config (0 # replicate 21 3000) five_rows \<noteq> None"
    "loop2 example_config True 0 five_rows \<noteq> None"
    by blast+
  then obtain d1 d2 where run: "loops example_config (0 # replicate 21 3000) five_rows = Some d1"
    "loop2 example_config True 0 five_rows = Some d2"
    by auto
  from inst bp before len run(1)
  have "(\<exists>lines. length lines = 1 \<and>
         (\<forall>l \<in> set lines. l \<in> set (rowBuffer five_rows) \<and> l ! 0 \<noteq> 0 \<or> l ! 0 = 0) \<and>
         (0 < (1 :: nat) \<longrightarrow> last lines = buffer d1) \<and>
         calls (deviceDriver d1) =
           calls (deviceDriver five_rows) @
           concat (map2 (slot_calls example_config) [slot five_rows ..< slot five_rows + 1] lines) \<and>
         bufferPointer d1 = None \<and>
         (0 < (1 :: nat) \<longrightarrow>
           slot d1 = (if slot five_rows + 1 < numCharacterRows five_rows then slot five_rows + 1 else 0))) \<and>
      write_counts (drop (length (calls (deviceDriver five_rows))) (calls (deviceDriver d1))) =
        replicate 1 (MAX_CHARACTER_COLS example_config)"
    by blast
  then have one: "(\<exists>lines. length lines = 1 \<and>
         (\<forall>l \<in> set lines. l \<in> set (rowBuffer five_rows) \<and> l ! 0 \<noteq> 0 \<or> l ! 0 = 0) \<and>
         last lines = buffer d1 \<and>
         calls (deviceDriver d1) = concat (map2 (slot_calls example_config) [0 ..< 1] lines) \<and>
         bufferPointer d1 = None \<and> slot d1 = 1) \<and>
      write_counts (calls (deviceDriver d1)) = [20]"
    by (simp add: sl c(4) five_rows_facts(1,3))
  from inst run(2)
  have "(\<exists>lines. length lines = max 1 (numCharacterRows five_rows) \<and>
         (\<forall>l \<in> set lines. l \<in> set (rowBuffer five_rows) \<and> l ! 0 \<noteq> 0 \<or> l ! 0 = 0) \<and>
         last lines = buffer d2 \<and>
         calls (deviceDriver d2) =
           calls (deviceDriver five_rows) @
           concat (map2 (slot_calls example_config) [0 ..< length lines] lines) \<and>
         bufferPointer d2 = None \<and> slot d2 = 0) \<and>
      write_counts (drop (length (calls (deviceDriver five_rows))) (calls (deviceDriver d2))) =
        replicate (max 1 (numCharacterRows five_rows)) (MAX_CHARACTER_COLS example_config)"
    by blast
  then have two: "(\<exists>lines. length lines = 2 \<and>
         (\<forall>l \<in> set lines. l \<in> set (rowBuffer five_rows) \<and> l ! 0 \<noteq> 0 \<or> l ! 0 = 0) \<and>
         last lines = buffer d2 \<and>
         calls (deviceDriver d2) = concat (map2 (slot_calls example_config) [0 ..< 2] lines) \<and>
         bufferPointer d2 = None \<and> slot d2 = 0) \<and>
      write_counts (calls (deviceDriver d2)) = [20, 20]"
    by (auto simp: c(4) five_rows_facts(1,3) numeral_2_eq_2)
  from r run one two show ?thesis
    by blast
qed

subsection \<open>Successive forced passes\<close>

lemma three_refreshes:
  assumes "shaped cfg d" and "0 < MAX_CHARACTER_COLS cfg" and "1 < MAX_CHARACTER_ROWS cfg"
    and "MAX_CHARACTER_ROWS cfg \<le> ROW_INITIAL cfg" and "numCharacterRows d = 2"
    and "takeWhile (\<lambda>b. b \<noteq> 0) (rowBuffer d ! 0) = [a]"
    and "takeWhile (\<lambda>b. b \<noteq> 0) (rowBuffer d ! 1) = [b]"
  shows "\<exists>d3. refreshes cfg [t1, t2, t3] d = Some d3 \<and>
     calls (deviceDriver d3) =
       calls (deviceDriver d) @
       (line_calls 0 [a] (MAX_CHARACTER_COLS cfg) @ line_calls 1 [b] (MAX_CHARACTER_COLS cfg)) @
       (line_calls 0 [a] (MAX_CHARACTER_COLS cfg) @ line_calls 1 [b] (MAX_CHARACTER_COLS cfg)) @
       (line_calls 0 [a] (MAX_CHARACTER_COLS cfg) @ line_calls 1 [b] (MAX_CHARACTER_COLS cfg))"
proof -
  let ?ab = "line_calls 0 [a] (MAX_CHARACTER_COLS cfg) @ line_calls 1 [b] (MAX_CHARACTER_COLS cfg)"
  from one_refresh [OF assms, of t1] obtain d1 where
    d1: "Display_refresh cfg t1 d = Some d1"
      "calls (deviceDriver d1) = calls (deviceDriver d) @ ?ab"
      "shaped cfg d1" "numCharacterRows d1 = 2" "rowBuffer d1 = rowBuffer d"
    by auto
  have rows1: "takeWhile (\<lambda>b. b \<noteq> 0) (rowBuffer d1 ! 0) = [a]"
    "takeWhile (\<lambda>b. b \<noteq> 0) (rowBuffer d1 ! 1) = [b]"
    using assms(6,7) d1(5) by simp_all
  from one_refresh [OF d1(3) assms(2-4) d1(4) rows1, of t2] obtain d2 where
    d2: "Display_refresh cfg t2 d1 = Some d2"
      "calls (deviceDriver d2) = calls (deviceDriver d1) @ ?ab"
      "shaped cfg d2" "numCharacterRows d2 = 2" "rowBuffer d2 = rowBuffer d1"
    by auto
  have rows2: "takeWhile (\<lambda>b. b \<noteq> 0) (rowBuffer d2 ! 0) = [a]"
    "takeWhile (\<lambda>b. b \<noteq> 0) (rowBuffer d2 ! 1) = [b]"
    using rows1 d2(5) by simp_all
  from one_refresh [OF d2(3) assms(2-4) d2(4) rows2, of t3] obtain d3 where
    d3: "Display_refresh cfg t3 d2 = Some d3"
      "calls (deviceDriver d3) = calls (deviceDriver d2) @ ?ab"
    by auto
  show ?thesis
    by (simp add: d1 d2 d3)
qed

lemma five_rows_three_refreshes:
  "\<exists>d3. refreshes example_config [t1, t2, t3] five_rows = Some d3 \<and>
     calls (deviceDriver d3) =
       (line_calls 0 [65] 20 @ line_calls 1 [66] 20) @
       (line_calls 0 [65] 20 @ line_calls 1 [66] 20) @
       (line_calls 0 [65] 20 @ line_calls 1 [66] 20)"
proof -
  have c: "0 < MAX_CHARACTER_COLS example_config" "1 < MAX_CHARACTER_ROWS example_config"
    "MAX_CHARACTER_ROWS example_config \<le> ROW_INITIAL example_config"
    "MAX_CHARACTER_COLS example_config = 20"
    by (simp_all add: example_config_def)
  have r: "takeWhile (\<lambda>b. b \<noteq> 0) (rowBuffer five_rows ! 0) = [65]"
    "takeWhile (\<lambda>b. b \<noteq> 0) (rowBuffer five_rows ! 1) = [66]"
    by code_simp+
  from three_refreshes [OF shaped_five_rows c(1-3) five_rows_facts(1) r, of t1 t2 t3]
  show ?thesis
    by (simp add: c(4) five_rows_facts(3))
qed

text \<open>
  C5, as stated, fails: on the example display the third forced pass does not show
  \<open>E\<close> and \<open>A\<close>, nor the second \<open>C\<close> and \<open>D\<close>.
\<close>

theorem forced_passes_crawl_counterexample:
  "traffic (refreshes example_config [0, 3000, 6000] five_rows) \<noteq>
     Some ((line_calls 0 [65] 20 @ line_calls 1 [66] 20) @
           (line_calls 0 [67] 20 @ line_calls 1 [68] 20) @
           (line_calls 0 [69] 20 @ line_calls 1 [65] 20))"
proof -
  have "(line_calls 0 [65] 20 @ line_calls 1 [66] 20) @
        (line_calls 0 [65] 20 @ line_calls 1 [66] 20) @
        (line_calls 0 [65] 20 @ line_calls 1 [66] 20) \<noteq>
        (line_calls 0 [65] 20 @ line_calls 1 [66] 20) @
        (line_calls 0 [67] 20 @ line_calls 1 [68] 20) @
        (line_calls 0 [69] 20 @ line_calls 1 [65] 20)"
    by code_simp
  with five_rows_three_refreshes [of 0 3000 6000] show ?thesis
    by (auto simp: traffic_def)
qed

text \<open>
  C5, amended.  On a display of 16 columns and 2 rows under \<open>SCROLLMODE\<close> 2, with the
  texts \<open>A\<close>, \<open>B\<close>, \<open>C\<close>, \<open>D\<close>, \<open>E\<close> in rows 0 to 4 and every other row blank,
  three successive forced passes each show \<open>A\<close> in slot 0 and \<open>B\<close> in slot 1,
  whatever the clock reads: a forced call starts again from the first row.  This holds
  for all values of the constants that leave room for the five rows and keep
  \<open>ROW_INITIAL\<close> apart from the row indices.
\<close>

theorem forced_passes_restart:
  assumes "shaped cfg d" and "0 < MAX_CHARACTER_COLS cfg" and "5 \<le> MAX_CHARACTER_ROWS cfg"
    and "MAX_CHARACTER_ROWS cfg \<le> ROW_INITIAL cfg" and "SCROLLMODE cfg = 2"
    and "numCharacterColumns d = 16" and "numCharacterRows d = 2"
    and "map (takeWhile (\<lambda>b. b \<noteq> 0)) (rowBuffer d) =
           [[65], [66], [67], [68], [69]] @ replicate (MAX_CHARACTER_ROWS cfg - 5) []"
  shows "traffic (refreshes cfg [t1, t2, t3] d) =
     Some (calls (deviceDriver d) @
       (line_calls 0 [65] (MAX_CHARACTER_COLS cfg) @ line_calls 1 [66] (MAX_CHARACTER_COLS cfg)) @
       (line_calls 0 [65] (MAX_CHARACTER_COLS cfg) @ line_calls 1 [66] (MAX_CHARACTER_COLS cfg)) @
       (line_calls 0 [65] (MAX_CHARACTER_COLS cfg) @ line_calls 1 [66] (MAX_CHARACTER_COLS cfg)))"
proof -
  have len: "0 < length (rowBuffer d)" "1 < length (rowBuffer d)"
    using assms(1,3) by (simp_all add: shaped_def)
  have "map (takeWhile (\<lambda>b. b \<noteq> 0)) (rowBuffer d) ! 0 = [65]"
    "map (takeWhile (\<lambda>b. b \<noteq> 0)) (rowBuffer d) ! 1 = [66]"
    unfolding assms(8) by simp_all
  then have r: "takeWhile (\<lambda>b. b \<noteq> 0) (rowBuffer d ! 0) = [65]"
    "takeWhile (\<lambda>b. b \<noteq> 0) (rowBuffer d ! 1) = [66]"
    using len by simp_all
  have rows: "1 < MAX_CHARACTER_ROWS cfg" using assms(3) by simp
  from three_refreshes [OF assms(1,2) rows assms(4,7) r, of t1 t2 t3] show ?thesis
    by (auto simp: traffic_def)
qed

text \<open>
  The display of the claim, with the constants of the example and three readings of
  the clock.
\<close>

theorem forced_passes_restart_witness:
  "traffic (refreshes example_config [0, 3000, 6000] five_rows) =
     Some ((line_calls 0 [65] 20 @ line_calls 1 [66] 20) @
           (line_calls 0 [65] 20 @ line_calls 1 [66] 20) @
           (line_calls 0 [65] 20 @ line_calls 1 [66] 20))"
proof -
  have c: "0 < MAX_CHARACTER_COLS example_config" "5 \<le> MAX_CHARACTER_ROWS example_config"
    "MAX_CHARACTER_ROWS example_config \<le> ROW_INITIAL example_config"
    "SCROLLMODE example_config = 2" "MAX_CHARACTER_COLS example_config = 20"
    by (simp_all add: example_config_def)
  from forced_passes_restart
    [OF shaped_five_rows c(1-4) five_rows_facts(2,1,4), of 0 3000 6000]
  show ?thesis
    by (simp add: c(5) five_rows_facts(3))
qed

end
